theory Spec2Isabelle
  imports Complex_Main
begin

section \<open>Strings as the engine uses them\<close>

text \<open>
  A Python \<open>str\<close> is modelled as a \<open>string\<close> (a list of 8-bit characters); the
  text the engine handles (callsigns, locators, exchanges, markers) is ASCII. \<open>upper\<close>,
  \<open>lower\<close> and \<open>strip\<close> are \<open>str.upper\<close>, \<open>str.lower\<close> and \<open>str.strip\<close> on that range.
\<close>

definition upper_char :: "char \<Rightarrow> char" where
  "upper_char c =
     (case map_of (zip ''abcdefghijklmnopqrstuvwxyz'' ''ABCDEFGHIJKLMNOPQRSTUVWXYZ'') c of
        None \<Rightarrow> c | Some d \<Rightarrow> d)"

definition lower_char :: "char \<Rightarrow> char" where
  "lower_char c =
     (case map_of (zip ''ABCDEFGHIJKLMNOPQRSTUVWXYZ'' ''abcdefghijklmnopqrstuvwxyz'') c of
        None \<Rightarrow> c | Some d \<Rightarrow> d)"

definition upper :: "string \<Rightarrow> string" where
  "upper s = map upper_char s"

definition lower :: "string \<Rightarrow> string" where
  "lower s = map lower_char s"

definition is_space :: "char \<Rightarrow> bool" where
  \<comment> \<open>\<open>str.isspace\<close> on ASCII: TAB, LF, VT, FF, CR, FS, GS, RS, US and the blank.\<close>
  "is_space c = (c \<in> set [CHR 0x09, CHR 0x0A, CHR 0x0B, CHR 0x0C, CHR 0x0D,
                             CHR 0x1C, CHR 0x1D, CHR 0x1E, CHR 0x1F, CHR '' ''])"

definition lstrip :: "string \<Rightarrow> string" where
  "lstrip s = dropWhile is_space s"

definition rstrip :: "string \<Rightarrow> string" where
  "rstrip s = rev (dropWhile is_space (rev s))"

definition strip :: "string \<Rightarrow> string" where
  "strip s = rstrip (lstrip s)"


section \<open>Errors\<close>

text \<open>
  A Python exception is a value: the exception class with its message. A function that
  can raise returns \<open>error + 'a\<close>, with \<open>Inl\<close> for the raise.
\<close>

datatype error =
    ValueError string
  | TypeError string
  | AttributeError string
  | FileNotFoundError string
  | IOError string
  | CsvError string
  | ZeroDivisionError string

section \<open>ContestRecord\<close>

record ContestRecord =
  callsign :: string
  locator :: string
  exchange :: string
  comment :: string

definition to_list :: "ContestRecord \<Rightarrow> string list" where
  "to_list r = [callsign r, locator r, exchange r, comment r]"

text \<open>
  \<open>from_list\<close>: empty data raises; four fields fill the record; more than four are too
  many arguments for the dataclass constructor (a \<open>TypeError\<close>); one to three fields keep
  the first one only, the rest being blank.
\<close>

fun from_list :: "string list \<Rightarrow> error + ContestRecord" where
  "from_list [] = Inl (ValueError ''Cannot create ContestRecord from empty data'')"
| "from_list [a, b, c, d] = Inr \<lparr>callsign = a, locator = b, exchange = c, comment = d\<rparr>"
| "from_list (a # b # c # d # e # rest) =
     Inl (TypeError ''ContestRecord.__init__() takes from 2 to 5 positional arguments'')"
| "from_list (a # rest) = Inr \<lparr>callsign = a, locator = [], exchange = [], comment = []\<rparr>"

definition has_more_than_callsign :: "ContestRecord \<Rightarrow> bool" where
  "has_more_than_callsign r =
     (strip (locator r) \<noteq> [] \<or> strip (exchange r) \<noteq> [] \<or> strip (comment r) \<noteq> [])"

definition rec_eq :: "ContestRecord \<Rightarrow> ContestRecord \<Rightarrow> bool" where
  \<comment> \<open>\<open>ContestRecord.__eq__\<close>\<close>
  "rec_eq a b =
     (upper (callsign a) = upper (callsign b) \<and>
      strip (locator a) = strip (locator b) \<and>
      strip (exchange a) = strip (exchange b) \<and>
      strip (comment a) = strip (comment b))"

subsection \<open>List operations that compare with \<open>__eq__\<close>\<close>

definition contains :: "ContestRecord list \<Rightarrow> ContestRecord \<Rightarrow> bool" where
  \<comment> \<open>\<open>x in xs\<close>\<close>
  "contains xs x = list_ex (\<lambda>y. rec_eq y x) xs"

fun list_remove :: "ContestRecord list \<Rightarrow> ContestRecord \<Rightarrow> error + ContestRecord list" where
  \<comment> \<open>\<open>xs.remove(x)\<close>: drops the first element equal to \<open>x\<close>, raises when there is none\<close>
  "list_remove [] x = Inl (ValueError ''list.remove(x): x not in list'')"
| "list_remove (y # ys) x =
     (if rec_eq y x then Inr ys
      else case list_remove ys x of Inl e \<Rightarrow> Inl e | Inr zs \<Rightarrow> Inr (y # zs))"

fun list_index :: "ContestRecord list \<Rightarrow> ContestRecord \<Rightarrow> error + nat" where
  \<comment> \<open>\<open>xs.index(x)\<close>: the position of the first element equal to \<open>x\<close>\<close>
  "list_index [] x = Inl (ValueError ''x is not in list'')"
| "list_index (y # ys) x =
     (if rec_eq y x then Inr 0
      else case list_index ys x of Inl e \<Rightarrow> Inl e | Inr i \<Rightarrow> Inr (Suc i))"

section \<open>ContestLogManager\<close>

datatype MergeMode = KEEP_ALL | KEEP_RECENT | SMART_MERGE

text \<open>
  The state of the manager. An observer is a callback; here it is the handle it was
  registered under, and \<open>notified\<close> is the log of the callbacks invoked so far, in order.
  Callbacks return normally.
\<close>

record manager =
  records :: "ContestRecord list"
  current_file :: "string option"
  merge_mode :: MergeMode
  remove_callsign_only :: bool
  observers :: "nat list"
  has_unsaved_changes :: bool
  notified :: "nat list"

definition new_manager :: manager where
  \<comment> \<open>\<open>__init__\<close>\<close>
  "new_manager = \<lparr>records = [], current_file = None, merge_mode = KEEP_ALL,
     remove_callsign_only = False, observers = [], has_unsaved_changes = False, notified = []\<rparr>"

definition notify_observers :: "manager \<Rightarrow> manager" where
  "notify_observers m = m\<lparr>notified := notified m @ observers m\<rparr>"

definition add_observer :: "manager \<Rightarrow> nat \<Rightarrow> manager" where
  "add_observer m cb = m\<lparr>observers := observers m @ [cb]\<rparr>"

definition set_merge_mode :: "manager \<Rightarrow> MergeMode \<Rightarrow> manager" where
  "set_merge_mode m md = m\<lparr>merge_mode := md\<rparr>"

definition set_remove_callsign_only :: "manager \<Rightarrow> bool \<Rightarrow> manager" where
  "set_remove_callsign_only m v = m\<lparr>remove_callsign_only := v\<rparr>"

definition reset :: "manager \<Rightarrow> manager" where
  "reset m =
     notify_observers
       ((if records m \<noteq> [] then m\<lparr>has_unsaved_changes := True\<rparr> else m)\<lparr>records := []\<rparr>)"

definition merged_record :: "ContestRecord \<Rightarrow> ContestRecord \<Rightarrow> ContestRecord" where
  \<comment> \<open>the record Smart-Merge builds from the stored record and the incoming one\<close>
  "merged_record existing_record new_record =
     \<lparr>callsign = callsign existing_record,
      locator = (if strip (locator new_record) \<noteq> [] then locator new_record
                 else locator existing_record),
      exchange = (if strip (exchange new_record) \<noteq> [] then exchange new_record
                  else exchange existing_record),
      comment = (if strip (comment new_record) \<noteq> [] then comment new_record
                 else comment existing_record)\<rparr>"

definition mark_changed :: "manager \<Rightarrow> manager" where
  \<comment> \<open>the last two statements of \<open>add_or_merge_record\<close>\<close>
  "mark_changed m = notify_observers (m\<lparr>has_unsaved_changes := True\<rparr>)"

definition add_or_merge_record :: "manager \<Rightarrow> ContestRecord \<Rightarrow> error + manager" where
  "add_or_merge_record m new_record =
     (if callsign new_record = [] then Inr m
      else if remove_callsign_only m \<and> \<not> has_more_than_callsign new_record then Inr m
      else
        let existing_records =
              filter (\<lambda>r. upper (callsign r) = upper (callsign new_record)) (records m)
        in case merge_mode m of
             KEEP_ALL \<Rightarrow>
               Inr (mark_changed
                     (if \<not> contains (records m) new_record
                      then m\<lparr>records := records m @ [new_record]\<rparr> else m))
           | KEEP_RECENT \<Rightarrow>
               (case existing_records of
                  [] \<Rightarrow> Inr (mark_changed (m\<lparr>records := records m @ [new_record]\<rparr>))
                | e # _ \<Rightarrow>
                    (case list_remove (records m) e of
                       Inl err \<Rightarrow> Inl err
                     | Inr rs \<Rightarrow> Inr (mark_changed (m\<lparr>records := rs @ [new_record]\<rparr>))))
           | SMART_MERGE \<Rightarrow>
               (case existing_records of
                  [] \<Rightarrow> Inr (mark_changed (m\<lparr>records := records m @ [new_record]\<rparr>))
                | existing_record # _ \<Rightarrow>
                    (case list_index (records m) existing_record of
                       Inl err \<Rightarrow> Inl err
                     | Inr i \<Rightarrow>
                         Inr (mark_changed
                               (m\<lparr>records :=
                                    (records m)[i := merged_record existing_record new_record]\<rparr>)))))"

subsection \<open>Sequences of calls on the manager\<close>

datatype call =
    Add ContestRecord
  | SetMergeMode MergeMode
  | SetRemoveCallsignOnly bool
  | AddObserver nat
  | Reset

fun do_call :: "manager \<Rightarrow> call \<Rightarrow> error + manager" where
  "do_call m (Add r) = add_or_merge_record m r"
| "do_call m (SetMergeMode md) = Inr (set_merge_mode m md)"
| "do_call m (SetRemoveCallsignOnly v) = Inr (set_remove_callsign_only m v)"
| "do_call m (AddObserver cb) = Inr (add_observer m cb)"
| "do_call m Reset = Inr (reset m)"

fun run :: "manager \<Rightarrow> call list \<Rightarrow> error + manager" where
  \<comment> \<open>the calls in order; an exception ends the sequence\<close>
  "run m [] = Inr m"
| "run m (c # cs) = (case do_call m c of Inl e \<Rightarrow> Inl e | Inr m' \<Rightarrow> run m' cs)"

fun changes_policy :: "call \<Rightarrow> bool" where
  \<comment> \<open>a call that leaves the Keep-All policy\<close>
  "changes_policy (SetMergeMode md) = (md \<noteq> KEEP_ALL)"
| "changes_policy _ = False"

fun no_equal_pair :: "ContestRecord list \<Rightarrow> bool" where
  "no_equal_pair [] = True"
| "no_equal_pair (x # xs) = (\<not> list_ex (rec_eq x) xs \<and> no_equal_pair xs)"

section \<open>Text files\<close>

text \<open>
  The file system as the manager sees it: the text of each existing file, and for each
  path whether opening it for writing (or the writing itself) raises, with the message of
  the operating system's error.
\<close>

record filesystem =
  files :: "string \<Rightarrow> string option"
  write_error :: "string \<Rightarrow> string option"

abbreviation CR :: char where "CR \<equiv> CHR 0x0D"
abbreviation LF :: char where "LF \<equiv> CHR 0x0A"

fun universal_newlines :: "string \<Rightarrow> string" where
  \<comment> \<open>reading in text mode with the default \<open>newline=None\<close>: CR LF and CR become LF\<close>
  "universal_newlines [] = []"
| "universal_newlines (c # cs) =
     (if c = CR then
        (case cs of
           [] \<Rightarrow> [LF]
         | d # ds \<Rightarrow> if d = LF then LF # universal_newlines ds else LF # universal_newlines cs)
      else c # universal_newlines cs)"

fun readlines_from :: "string \<Rightarrow> string \<Rightarrow> string list" where
  \<comment> \<open>the lines of a text, each with its terminating LF; the first argument is the line
      read so far\<close>
  "readlines_from acc [] = (if acc = [] then [] else [acc])"
| "readlines_from acc (c # cs) =
     (if c = LF then (acc @ [c]) # readlines_from [] cs else readlines_from (acc @ [c]) cs)"

definition readlines :: "string \<Rightarrow> string list" where
  "readlines s = readlines_from [] s"

definition startswith :: "string \<Rightarrow> string \<Rightarrow> bool" where
  "startswith s p = (take (length p) s = p)"

section \<open>The csv module, excel dialect\<close>

text \<open>
  \<open>csv.reader\<close> and \<open>csv.writer\<close> with their defaults: delimiter \<open>,\<close>, quote character
  \<open>"\<close>, doubled quotes, minimal quoting, no escape character, not strict, line terminator
  CR LF. The reader is the state machine of the module; a line is processed character by
  character and then the end-of-line event (\<open>None\<close>).
\<close>

datatype csv_state =
  START_RECORD | START_FIELD | IN_FIELD | IN_QUOTED_FIELD | QUOTE_IN_QUOTED_FIELD | EAT_CRNL

record csv_reader =
  pstate :: csv_state
  pfields :: "string list"
  pfield :: string

definition parse_reset :: csv_reader where
  "parse_reset = \<lparr>pstate = START_RECORD, pfields = [], pfield = []\<rparr>"

definition field_limit :: nat where
  "field_limit = 131072"

definition parse_save_field :: "csv_reader \<Rightarrow> csv_reader" where
  "parse_save_field p = p\<lparr>pfields := pfields p @ [pfield p], pfield := []\<rparr>"

definition parse_add_char :: "csv_reader \<Rightarrow> char \<Rightarrow> error + csv_reader" where
  "parse_add_char p c =
     (if length (pfield p) \<ge> field_limit
      then Inl (CsvError ''field larger than field limit (131072)'')
      else Inr (p\<lparr>pfield := pfield p @ [c]\<rparr>))"

definition after_eol :: "char option \<Rightarrow> csv_state" where
  \<comment> \<open>the state after a field that a line end closes\<close>
  "after_eol c = (if c = None then START_RECORD else EAT_CRNL)"

fun start_field :: "csv_reader \<Rightarrow> char option \<Rightarrow> error + csv_reader" where
  "start_field p None = Inr ((parse_save_field p)\<lparr>pstate := after_eol None\<rparr>)"
| "start_field p (Some c) =
     (if c = LF \<or> c = CR then Inr ((parse_save_field p)\<lparr>pstate := after_eol (Some c)\<rparr>)
      else if c = CHR 0x22 then Inr (p\<lparr>pstate := IN_QUOTED_FIELD\<rparr>)
      else if c = CHR '','' then Inr (parse_save_field p)
      else (case parse_add_char p c of Inl e \<Rightarrow> Inl e | Inr p' \<Rightarrow> Inr (p'\<lparr>pstate := IN_FIELD\<rparr>)))"

fun parse_process_char :: "csv_reader \<Rightarrow> char option \<Rightarrow> error + csv_reader" where
  "parse_process_char p c =
     (case pstate p of
        START_RECORD \<Rightarrow>
          (case c of
             None \<Rightarrow> Inr p
           | Some ch \<Rightarrow>
               if ch = LF \<or> ch = CR then Inr (p\<lparr>pstate := EAT_CRNL\<rparr>)
               else start_field (p\<lparr>pstate := START_FIELD\<rparr>) c)
      | START_FIELD \<Rightarrow> start_field p c
      | IN_FIELD \<Rightarrow>
          (case c of
             None \<Rightarrow> Inr ((parse_save_field p)\<lparr>pstate := after_eol c\<rparr>)
           | Some ch \<Rightarrow>
               if ch = LF \<or> ch = CR then Inr ((parse_save_field p)\<lparr>pstate := after_eol c\<rparr>)
               else if ch = CHR '','' then Inr ((parse_save_field p)\<lparr>pstate := START_FIELD\<rparr>)
               else parse_add_char p ch)
      | IN_QUOTED_FIELD \<Rightarrow>
          (case c of
             None \<Rightarrow> Inr p
           | Some ch \<Rightarrow>
               if ch = CHR 0x22 then Inr (p\<lparr>pstate := QUOTE_IN_QUOTED_FIELD\<rparr>)
               else parse_add_char p ch)
      | QUOTE_IN_QUOTED_FIELD \<Rightarrow>
          (case c of
             None \<Rightarrow> Inr ((parse_save_field p)\<lparr>pstate := after_eol c\<rparr>)
           | Some ch \<Rightarrow>
               if ch = CHR 0x22 then
                 (case parse_add_char p ch of
                    Inl e \<Rightarrow> Inl e | Inr p' \<Rightarrow> Inr (p'\<lparr>pstate := IN_QUOTED_FIELD\<rparr>))
               else if ch = CHR '','' then Inr ((parse_save_field p)\<lparr>pstate := START_FIELD\<rparr>)
               else if ch = LF \<or> ch = CR then Inr ((parse_save_field p)\<lparr>pstate := after_eol c\<rparr>)
               else (case parse_add_char p ch of
                       Inl e \<Rightarrow> Inl e | Inr p' \<Rightarrow> Inr (p'\<lparr>pstate := IN_FIELD\<rparr>)))
      | EAT_CRNL \<Rightarrow>
          (case c of
             None \<Rightarrow> Inr (p\<lparr>pstate := START_RECORD\<rparr>)
           | Some ch \<Rightarrow>
               if ch = LF \<or> ch = CR then Inr p
               else Inl (CsvError ''new-line character seen in unquoted field'')))"

fun parse_line :: "csv_reader \<Rightarrow> string \<Rightarrow> error + csv_reader" where
  \<comment> \<open>the characters of one line, then the end-of-line event\<close>
  "parse_line p [] = parse_process_char p None"
| "parse_line p (c # cs) =
     (case parse_process_char p (Some c) of Inl e \<Rightarrow> Inl e | Inr p' \<Rightarrow> parse_line p' cs)"

fun parse_chars :: "csv_reader \<Rightarrow> string \<Rightarrow> error + csv_reader" where
  \<comment> \<open>the characters of a part of a line\<close>
  "parse_chars p [] = Inr p"
| "parse_chars p (c # cs) =
     (case parse_process_char p (Some c) of Inl e \<Rightarrow> Inl e | Inr p' \<Rightarrow> parse_chars p' cs)"

fun csv_rows :: "csv_reader \<Rightarrow> string list \<Rightarrow> string list list \<times> error option" where
  \<comment> \<open>the rows the reader yields from the lines, and the error that ends the iteration,
      if one does; a row ends with the line that leaves the reader in \<open>START_RECORD\<close>\<close>
  "csv_rows p [] =
     (if pfield p \<noteq> [] \<or> pstate p = IN_QUOTED_FIELD
      then ([pfields (parse_save_field p)], None) else ([], None))"
| "csv_rows p (l # ls) =
     (case parse_line p l of
        Inl e \<Rightarrow> ([], Some e)
      | Inr p' \<Rightarrow>
          if pstate p' = START_RECORD
          then (case csv_rows parse_reset ls of (rows, e) \<Rightarrow> (pfields p' # rows, e))
          else csv_rows p' ls)"

definition csv_reader_rows :: "string list \<Rightarrow> string list list \<times> error option" where
  "csv_reader_rows ls = csv_rows parse_reset ls"

definition needs_quoting :: "char \<Rightarrow> bool" where
  "needs_quoting c = (c = CHR '','' \<or> c = CHR 0x22 \<or> c = CR \<or> c = LF)"

definition escaped :: "string \<Rightarrow> string" where
  \<comment> \<open>every quote character doubled\<close>
  "escaped f = concat (map (\<lambda>c. if c = CHR 0x22 then [c, c] else [c]) f)"

definition quote_field :: "string \<Rightarrow> string" where
  "quote_field f =
     (if list_ex needs_quoting f then [CHR 0x22] @ escaped f @ [CHR 0x22] else f)"

fun join_fields :: "string list \<Rightarrow> string" where
  "join_fields [] = []"
| "join_fields [f] = quote_field f"
| "join_fields (f # fs) = quote_field f @ [CHR '',''] @ join_fields fs"

definition writerow :: "string list \<Rightarrow> string" where
  \<comment> \<open>a row of a single empty field is written as a pair of quotes\<close>
  "writerow fs = (if fs = [[]] then [CHR 0x22, CHR 0x22] else join_fields fs) @ [CR, LF]"

definition writerows :: "string list list \<Rightarrow> string" where
  "writerows rows = concat (map writerow rows)"

section \<open>Saving and loading CSL\<close>

definition VERSION :: string where
  "VERSION = ''0.7''"

definition HEADER :: string where
  "HEADER = ''# Minos CSL Utility by G4CTP v'' @ VERSION @ [LF] @
            ''# <Callsign>, <Locator>, <Exchange>, <Comment>''"

definition csl_text :: "ContestRecord list \<Rightarrow> string" where
  \<comment> \<open>what \<open>save_csl\<close> writes\<close>
  "csl_text rs = HEADER @ [LF] @ writerows (map to_list rs)"

definition save_csl :: "manager \<Rightarrow> filesystem \<Rightarrow> string \<Rightarrow> error option \<times> manager \<times> filesystem" where
  \<comment> \<open>the file is opened with \<open>newline=''\<close>: the text is stored as written\<close>
  "save_csl m fs filename =
     (case write_error fs filename of
        Some msg \<Rightarrow> (Some (IOError (''Failed to save file: '' @ msg)), m, fs)
      | None \<Rightarrow>
          (None,
           notify_observers (m\<lparr>has_unsaved_changes := False\<rparr>),
           fs\<lparr>files := (files fs)(filename \<mapsto> csl_text (records m))\<rparr>))"

text \<open>
  A loader returns the exception that ended it (if one did), the manager as the loader
  left it, and the values it passed to its progress callback, in order.

  Progress values are Python floats. A float is modelled by the real number it stands
  for, and every float operation returns the exact result rounded to a float; the
  rounding is a parameter of the loaders (\<open>rnd\<close>). Counts are far below \<open>2^53\<close> and so are
  floats as they are. The properties below assume of the rounding only what holds for
  the rounding of IEEE 754 arithmetic: it is monotone, and it leaves the floats 0, 1/2
  and 50 as they are.
\<close>

type_synonym load_result = "error option \<times> manager \<times> real list"

type_synonym rounding = "real \<Rightarrow> real"

definition exact :: rounding where
  \<comment> \<open>arithmetic without rounding error, for the examples\<close>
  "exact x = x"

definition truediv :: "rounding \<Rightarrow> nat \<Rightarrow> nat \<Rightarrow> error + real" where
  \<comment> \<open>\<open>a / b\<close> on counts\<close>
  "truediv rnd a b = (if b = 0 then Inl (ZeroDivisionError ''division by zero'')
                      else Inr (rnd (real a / real b)))"

definition percent :: "rounding \<Rightarrow> real \<Rightarrow> real" where
  \<comment> \<open>the float product of a quotient and 100\<close>
  "percent rnd q = rnd (q * 100)"

definition add_row :: "manager \<Rightarrow> string list \<Rightarrow> error + manager" where
  \<comment> \<open>\<open>self.add_or_merge_record(ContestRecord.from_list([field.strip() for field in row]))\<close>\<close>
  "add_row m row =
     (case from_list (map strip row) of
        Inl e \<Rightarrow> Inl e
      | Inr r \<Rightarrow> add_or_merge_record m r)"

fun csl_rows_loop :: "rounding \<Rightarrow> manager \<Rightarrow> nat \<Rightarrow> nat \<Rightarrow> error option \<Rightarrow> string list list \<Rightarrow> load_result" where
  \<comment> \<open>\<open>for row in reader\<close>; the fourth argument is the error the reader raises after its
      last row\<close>
  "csl_rows_loop rnd m total_lines processed_lines err [] = (err, m, [])"
| "csl_rows_loop rnd m total_lines processed_lines err (row # rows) =
     (case (if row \<noteq> [] then add_row m row else Inr m) of
        Inl e \<Rightarrow> (Some e, m, [])
      | Inr m' \<Rightarrow>
          (case truediv rnd (processed_lines + 1) total_lines of
             Inl e \<Rightarrow> (Some e, m', [])
           | Inr q \<Rightarrow>
               (case csl_rows_loop rnd m' total_lines (processed_lines + 1) err rows of
                  (e, m'', ps) \<Rightarrow> (e, m'', percent rnd q # ps))))"

definition load_csl :: "rounding \<Rightarrow> manager \<Rightarrow> string \<Rightarrow> load_result" where
  \<comment> \<open>the second argument is the text of the file as stored\<close>
  "load_csl rnd m text =
     (let lines = readlines (universal_newlines text);
          total_lines = length lines
      in case csv_reader_rows lines of
           ([], err) \<Rightarrow> (err, m, [])
         | (first_line # rows, err) \<Rightarrow>
             (case first_line of
                [] \<Rightarrow> csl_rows_loop rnd m total_lines 0 err rows
              | f0 # _ \<Rightarrow>
                  if startswith f0 ''#'' then csl_rows_loop rnd m total_lines 0 err rows
                  else
                    (case add_row m first_line of
                       Inl e \<Rightarrow> (Some e, m, [])
                     | Inr m' \<Rightarrow>
                         (case truediv rnd 1 total_lines of
                            Inl e \<Rightarrow> (Some e, m', [])
                          | Inr q \<Rightarrow>
                              (case csl_rows_loop rnd m' total_lines 1 err rows of
                                 (e, m'', ps) \<Rightarrow> (e, m'', percent rnd q # ps))))))"

section \<open>String helpers of the parsers\<close>

fun find_str :: "string \<Rightarrow> string \<Rightarrow> nat option" where
  \<comment> \<open>\<open>s.find(sub)\<close>: the first position where \<open>sub\<close> starts, \<open>None\<close> for -1\<close>
  "find_str sub [] = (if sub = [] then Some 0 else None)"
| "find_str sub (c # cs) =
     (if startswith (c # cs) sub then Some 0 else map_option Suc (find_str sub cs))"

definition find_from :: "string \<Rightarrow> string \<Rightarrow> nat \<Rightarrow> nat option" where
  \<comment> \<open>\<open>s.find(sub, start)\<close> for \<open>start\<close> within the string\<close>
  "find_from sub s start = map_option (\<lambda>i. start + i) (find_str sub (drop start s))"

fun split_from :: "char \<Rightarrow> string \<Rightarrow> string \<Rightarrow> string list" where
  "split_from sep acc [] = [acc]"
| "split_from sep acc (c # cs) =
     (if c = sep then acc # split_from sep [] cs else split_from sep (acc @ [c]) cs)"

definition split :: "string \<Rightarrow> char \<Rightarrow> string list" where
  \<comment> \<open>\<open>s.split(sep)\<close> for a separator of one character\<close>
  "split s sep = split_from sep [] s"

fun join :: "string \<Rightarrow> string list \<Rightarrow> string" where
  \<comment> \<open>\<open>sep.join(xs)\<close>\<close>
  "join sep [] = []"
| "join sep [x] = x"
| "join sep (x # xs) = x @ sep @ join sep xs"

definition slice :: "string \<Rightarrow> int \<Rightarrow> int \<Rightarrow> string" where
  \<comment> \<open>\<open>s[i:j]\<close>: negative bounds count from the end, both are clipped to the string\<close>
  "slice s i j =
     (let n = int (length s);
          lo = (if i < 0 then max (i + n) 0 else min i n);
          hi = (if j < 0 then max (j + n) 0 else min j n)
      in take (nat (hi - lo)) (drop (nat lo) s))"

definition digit_value :: "char \<Rightarrow> int option" where
  "digit_value c = map_of (zip ''0123456789'' [0, 1, 2, 3, 4, 5, 6, 7, 8, 9]) c"

fun digits_value :: "int \<Rightarrow> string \<Rightarrow> int option" where
  \<comment> \<open>decimal digits, single underscores allowed between two digits\<close>
  "digits_value acc [] = Some acc"
| "digits_value acc (c # cs) =
     (if c = CHR ''_'' then
        (case cs of
           [] \<Rightarrow> None
         | d # ds \<Rightarrow>
             (case digit_value d of
                None \<Rightarrow> None
              | Some v \<Rightarrow> digits_value (10 * acc + v) ds))
      else
        (case digit_value c of
           None \<Rightarrow> None
         | Some v \<Rightarrow> digits_value (10 * acc + v) cs))"

definition is_int_space :: "char \<Rightarrow> bool" where
  \<comment> \<open>the blanks \<open>int()\<close> skips around a number\<close>
  "is_int_space c = (c \<in> set [CHR 0x09, CHR 0x0A, CHR 0x0B, CHR 0x0C, CHR 0x0D, CHR '' ''])"

definition unsigned_value :: "string \<Rightarrow> int option" where
  "unsigned_value s =
     (case s of
        [] \<Rightarrow> None
      | c # cs \<Rightarrow> (case digit_value c of None \<Rightarrow> None | Some v \<Rightarrow> digits_value v cs))"

definition int_of_str :: "string \<Rightarrow> int option" where
  \<comment> \<open>\<open>int(s)\<close> on ASCII text; \<open>None\<close> for \<open>ValueError\<close>\<close>
  "int_of_str s =
     (let t = rev (dropWhile is_int_space (rev (dropWhile is_int_space s)))
      in case t of
           [] \<Rightarrow> None
         | c # cs \<Rightarrow>
             if c = CHR ''-'' then map_option uminus (unsigned_value cs)
             else if c = CHR ''+'' then unsigned_value cs
             else unsigned_value t)"

section \<open>Loading EDI\<close>

definition emit :: "real \<Rightarrow> load_result \<Rightarrow> load_result" where
  \<comment> \<open>a progress value passed to the callback before the rest of the loop runs\<close>
  "emit p r = (case r of (e, m, ps) \<Rightarrow> (e, m, p # ps))"

fun edi_first_pass ::
  "rounding \<Rightarrow> (string \<Rightarrow> string option) \<Rightarrow> bool \<Rightarrow> nat \<Rightarrow> nat \<Rightarrow> string list \<Rightarrow>
   error option \<times> (string \<Rightarrow> string option) \<times> real list" where
  \<comment> \<open>the loop that collects the comments: the dictionary, \<open>in_remarks\<close>, \<open>total_lines\<close>,
      \<open>processed_lines\<close>, the lines still to read\<close>
  "edi_first_pass rnd comments in_remarks total_lines processed_lines [] = (None, comments, [])"
| "edi_first_pass rnd comments in_remarks total_lines processed_lines (l # ls) =
     (let line = strip l in
      case truediv rnd (processed_lines + 1) (total_lines * 2) of
        Inl e \<Rightarrow> (Some e, comments, [])
      | Inr q \<Rightarrow>
          (let flds = split line CHR '';'';
               next_state =
                 (if startswith line ''[Remarks]'' then (comments, True)
                  else if startswith line ''[QSORecords;'' then (comments, False)
                  else if in_remarks \<and> line \<noteq> [] \<and> length flds \<ge> 4
                  then (comments(strip (flds ! 2) \<mapsto> strip (flds ! 3)), in_remarks)
                  else (comments, in_remarks))
           in case edi_first_pass rnd (fst next_state) (snd next_state) total_lines
                     (processed_lines + 1) ls of
                (e, c, ps) \<Rightarrow> (e, c, percent rnd q # ps)))"

definition edi_record :: "(string \<Rightarrow> string option) \<Rightarrow> string list \<Rightarrow> ContestRecord" where
  "edi_record comments flds =
     \<lparr>callsign = strip (flds ! 2),
      locator = strip (flds ! 9),
      exchange = strip (flds ! 8),
      comment = (case comments (strip (flds ! 2)) of None \<Rightarrow> [] | Some c \<Rightarrow> c)\<rparr>"

fun edi_second_pass ::
  "rounding \<Rightarrow> manager \<Rightarrow> (string \<Rightarrow> string option) \<Rightarrow> bool \<Rightarrow> nat \<Rightarrow> nat \<Rightarrow> string list \<Rightarrow> load_result" where
  \<comment> \<open>the loop that reads the contacts; it ends at the \<open>[END;\<close> line\<close>
  "edi_second_pass rnd m comments in_qso_section total_lines processed_lines [] = (None, m, [])"
| "edi_second_pass rnd m comments in_qso_section total_lines processed_lines (l # ls) =
     (let line = strip l in
      case truediv rnd (processed_lines + 1) (total_lines * 2) of
        Inl e \<Rightarrow> (Some e, m, [])
      | Inr q \<Rightarrow>
          (let progress = min (rnd (50 + percent rnd q)) 100;
               flds = split line CHR '';''
           in if startswith line ''[QSORecords;''
              then emit progress
                     (edi_second_pass rnd m comments True total_lines (processed_lines + 1) ls)
              else if startswith line ''[END;'' then (None, m, [progress])
              else
                (case (if in_qso_section \<and> line \<noteq> [] \<and> length flds \<ge> 10
                       then add_or_merge_record m (edi_record comments flds) else Inr m) of
                   Inl e \<Rightarrow> (Some e, m, [progress])
                 | Inr m' \<Rightarrow>
                     emit progress
                       (edi_second_pass rnd m' comments in_qso_section total_lines
                          (processed_lines + 1) ls))))"

definition load_edi :: "rounding \<Rightarrow> manager \<Rightarrow> string \<Rightarrow> load_result" where
  "load_edi rnd m text =
     (let lines = readlines (universal_newlines text);
          total_lines = length lines
      in case edi_first_pass rnd Map.empty False total_lines 0 lines of
           (Some e, comments, ps) \<Rightarrow> (Some e, m, ps)
         | (None, comments, ps) \<Rightarrow>
             (case edi_second_pass rnd m comments False total_lines 0 lines of
                (e, m', ps') \<Rightarrow> (e, m', ps @ ps')))"

section \<open>Loading ADIF\<close>

definition extract_adif_field :: "string \<Rightarrow> string \<Rightarrow> string" where
  "extract_adif_field qso fld =
     (case find_str (''<'' @ upper fld) (upper qso) of
        None \<Rightarrow> []
      | Some field_start \<Rightarrow>
          (case find_from ''>'' qso field_start of
             None \<Rightarrow> []
           | Some field_end \<Rightarrow>
               (case split (slice qso (int field_start) (int field_end)) CHR '':'' of
                  a # b # _ \<Rightarrow>
                    (case split b CHR '':'' of
                       [] \<Rightarrow> []
                     | tok # _ \<Rightarrow>
                         (case int_of_str tok of
                            None \<Rightarrow> []
                          | Some len \<Rightarrow>
                              strip (slice qso (int field_end + 1) (int field_end + 1 + len))))
                | _ \<Rightarrow> [])))"

definition adif_record :: "string \<Rightarrow> ContestRecord" where
  "adif_record qso =
     \<lparr>callsign = extract_adif_field qso ''CALL'',
      locator = extract_adif_field qso ''GRIDSQUARE'',
      exchange = extract_adif_field qso ''QTH'',
      comment = extract_adif_field qso ''COMMENT''\<rparr>"

definition adif_next :: "string \<Rightarrow> (nat \<times> string \<times> string) option" where
  \<comment> \<open>one turn of the scanner: the position of the next \<open><EOR>\<close>, the record body before
      it and the text left after it; \<open>None\<close> when the loop ends\<close>
  "adif_next qsos =
     (if strip qsos = [] then None
      else case find_str ''<EOR>'' qsos of
             None \<Rightarrow> None
           | Some eor_index \<Rightarrow>
               Some (eor_index, strip (take eor_index qsos), strip (drop (eor_index + 5) qsos)))"

lemma length_strip_le: "length (strip s) \<le> length s"
proof -
  have "length (rstrip t) \<le> length t" for t
    unfolding rstrip_def using length_dropWhile_le [of is_space "rev t"] by simp
  moreover have "length (lstrip s) \<le> length s"
    unfolding lstrip_def by (rule length_dropWhile_le)
  ultimately show ?thesis
    unfolding strip_def using le_trans by blast
qed

lemma adif_next_shorter:
  assumes "adif_next qsos = Some (eor_index, qso, rest)"
  shows "length rest < length qsos"
proof -
  from assms have ne: "strip qsos \<noteq> []" and rest: "rest = strip (drop (eor_index + 5) qsos)"
    by (auto simp: adif_next_def split: if_splits option.splits)
  from ne have "qsos \<noteq> []" by (auto simp: strip_def lstrip_def rstrip_def)
  then have "length (drop (eor_index + 5) qsos) < length qsos" by simp
  with length_strip_le [of "drop (eor_index + 5) qsos"] rest show ?thesis by simp
qed

function adif_loop :: "rounding \<Rightarrow> manager \<Rightarrow> nat \<Rightarrow> nat \<Rightarrow> string \<Rightarrow> load_result" where
  \<comment> \<open>\<open>while qsos.strip()\<close>: the manager, \<open>total_length\<close>, \<open>processed_length\<close>, \<open>qsos\<close>\<close>
  "adif_loop rnd m total_length processed_length qsos =
     (case adif_next qsos of
        None \<Rightarrow> (None, m, [])
      | Some (eor_index, qso, rest) \<Rightarrow>
          (case truediv rnd (processed_length + (eor_index + 5)) total_length of
             Inl e \<Rightarrow> (Some e, m, [])
           | Inr q \<Rightarrow>
               (let progress = min (percent rnd q) 100;
                    record = adif_record qso
                in case (if callsign record \<noteq> [] then add_or_merge_record m record else Inr m) of
                     Inl e \<Rightarrow> (Some e, m, [progress])
                   | Inr m' \<Rightarrow>
                       emit progress
                         (adif_loop rnd m' total_length (processed_length + (eor_index + 5)) rest))))"
  by pat_completeness auto
termination
  by (relation "measure (\<lambda>(rnd, m, total_length, processed_length, qsos). length qsos)")
     (auto dest: adif_next_shorter)

definition load_adif :: "rounding \<Rightarrow> manager \<Rightarrow> string \<Rightarrow> load_result" where
  \<comment> \<open>the text read in text mode\<close>
  "load_adif rnd m text =
     (let content = universal_newlines text;
          qsos = (case find_str ''<EOH>'' content of
                    Some i \<Rightarrow> drop (i + 5) content
                  | None \<Rightarrow> content)
      in adif_loop rnd m (length qsos) 0 qsos)"

section \<open>Loading Minos\<close>

text \<open>
  An element of the parsed document, as \<open>xml.etree.ElementTree\<close> gives it: the tag with
  its namespace in braces, the text before the first child (\<open>None\<close> when there is none)
  and the children in document order. The XML parser itself is a parameter of the loader:
  it returns the root element, or the message of its \<open>ParseError\<close>.
\<close>

datatype xml = Element (tag: string) (elem_text: "string option") (children: "xml list")

type_synonym xml_parser = "string \<Rightarrow> string + xml"

fun descendants :: "xml \<Rightarrow> xml list" where
  \<comment> \<open>all elements below an element, in document order\<close>
  "descendants (Element t x cs) = concat (map (\<lambda>c. c # descendants c) cs)"

definition ns :: string where
  "ns = ''{minos:iq:rpc}''"

definition ns_client :: string where
  "ns_client = ''{minos:client}''"

definition findall_iq :: "xml \<Rightarrow> xml list" where
  \<comment> \<open>\<open>root.findall(".//{minos:client}iq")\<close>\<close>
  "findall_iq root_elem = filter (\<lambda>e. tag e = ns_client @ ''iq'') (descendants root_elem)"

definition findall_children :: "xml \<Rightarrow> string \<Rightarrow> xml list" where
  \<comment> \<open>\<open>e.findall(t)\<close> for a plain tag: the children with that tag\<close>
  "findall_children e t = filter (\<lambda>c. tag c = t) (children e)"

definition find_child :: "xml \<Rightarrow> string \<Rightarrow> xml option" where
  \<comment> \<open>\<open>e.find(t)\<close> for a plain tag: the first child with that tag\<close>
  "find_child e t = (case findall_children e t of [] \<Rightarrow> None | c # _ \<Rightarrow> Some c)"

fun find_path_all :: "xml list \<Rightarrow> string list \<Rightarrow> xml list" where
  "find_path_all es [] = es"
| "find_path_all es (t # ts) = find_path_all (concat (map (\<lambda>e. findall_children e t) es)) ts"

definition find_path :: "xml \<Rightarrow> string list \<Rightarrow> xml option" where
  \<comment> \<open>\<open>e.find("t1/t2/...")\<close>: the first element that the path of child steps reaches\<close>
  "find_path e ts = (case find_path_all [e] ts of [] \<Rightarrow> None | c # _ \<Rightarrow> Some c)"

text \<open>
  \<open>qso_data\<close>: a dictionary from the text of a \<open>name\<close> element to the text of the first
  child of the \<open>value\<close> element beside it; either text can be \<open>None\<close>.
\<close>

type_synonym qso_dict = "string option \<Rightarrow> string option option"

fun collect_members :: "qso_dict \<Rightarrow> xml list \<Rightarrow> qso_dict" where
  "collect_members qso_data [] = qso_data"
| "collect_members qso_data (member # members) =
     collect_members
       (case (find_child member (ns @ ''name''), find_child member (ns @ ''value'')) of
          (Some name_elem, Some value_elem) \<Rightarrow>
            (case children value_elem of
               [] \<Rightarrow> qso_data
             | child # _ \<Rightarrow> qso_data(elem_text name_elem \<mapsto> elem_text child))
        | _ \<Rightarrow> qso_data)
       members"

definition truthy :: "string option option \<Rightarrow> bool" where
  \<comment> \<open>the truth value of \<open>qso_data.get(key)\<close>: the key is there with a non-empty text\<close>
  "truthy v = (case v of Some (Some s) \<Rightarrow> s \<noteq> [] | _ \<Rightarrow> False)"

definition get_stripped :: "qso_dict \<Rightarrow> string \<Rightarrow> error + string" where
  \<comment> \<open>\<open>qso_data.get(key, '').strip()\<close>; a key stored with the text \<open>None\<close> has no \<open>strip\<close>\<close>
  "get_stripped qso_data key =
     (case qso_data (Some key) of
        None \<Rightarrow> Inr []
      | Some None \<Rightarrow> Inl (AttributeError ''NoneType object has no attribute strip'')
      | Some (Some s) \<Rightarrow> Inr (strip s))"

definition minos_comments :: "qso_dict \<Rightarrow> string list" where
  "minos_comments qso_data =
     (if truthy (qso_data (Some ''commentsTx'')) then [the (the (qso_data (Some ''commentsTx'')))]
      else []) @
     (if truthy (qso_data (Some ''commentsRx'')) \<and>
         the (qso_data (Some ''commentsRx'')) \<noteq>
           (case qso_data (Some ''commentsTx'') of None \<Rightarrow> None | Some v \<Rightarrow> v)
      then [the (the (qso_data (Some ''commentsRx'')))] else [])"

definition minos_record :: "qso_dict \<Rightarrow> error + ContestRecord" where
  \<comment> \<open>the constructor call; its arguments are evaluated in order\<close>
  "minos_record qso_data =
     (case get_stripped qso_data ''callRx'' of
        Inl e \<Rightarrow> Inl e
      | Inr c \<Rightarrow>
          (case get_stripped qso_data ''locRx'' of
             Inl e \<Rightarrow> Inl e
           | Inr l \<Rightarrow>
               (case get_stripped qso_data ''exchangeRx'' of
                  Inl e \<Rightarrow> Inl e
                | Inr x \<Rightarrow>
                    Inr \<lparr>callsign = c, locator = l, exchange = x,
                         comment = join '' | '' (minos_comments qso_data)\<rparr>)))"

definition qso_params :: "xml \<Rightarrow> xml option" where
  \<comment> \<open>the parameter struct of an \<open>iq\<close> element that is a \<open>MinosLogQSO\<close> call\<close>
  "qso_params iq =
     (case find_child iq (ns @ ''query'') of
        None \<Rightarrow> None
      | Some query \<Rightarrow>
          (case find_child query (ns @ ''methodCall'') of
             None \<Rightarrow> None
           | Some method_call \<Rightarrow>
               (case find_child method_call (ns @ ''methodName'') of
                  None \<Rightarrow> None
                | Some method_name \<Rightarrow>
                    if elem_text method_name \<noteq> Some ''MinosLogQSO'' then None
                    else find_path method_call
                           [ns @ ''params'', ns @ ''param'', ns @ ''value'', ns @ ''struct''])))"

definition qualifies :: "xml \<Rightarrow> bool" where
  \<comment> \<open>the \<open>iq\<close> elements for which the loop builds a record and counts it in \<open>qso_count\<close>\<close>
  "qualifies iq =
     (case qso_params iq of
        None \<Rightarrow> False
      | Some params \<Rightarrow>
          truthy (collect_members Map.empty (findall_children params (ns @ ''member''))
                    (Some ''callRx'')))"

definition minos_iq :: "manager \<Rightarrow> xml \<Rightarrow> error + manager" where
  \<comment> \<open>the body of the loop after the progress report\<close>
  "minos_iq m iq =
     (case qso_params iq of
        None \<Rightarrow> Inr m
      | Some params \<Rightarrow>
          (let qso_data = collect_members Map.empty (findall_children params (ns @ ''member''))
           in if truthy (qso_data (Some ''callRx''))
              then (case minos_record qso_data of
                      Inl e \<Rightarrow> Inl e
                    | Inr record \<Rightarrow> add_or_merge_record m record)
              else Inr m))"

fun minos_loop :: "rounding \<Rightarrow> manager \<Rightarrow> nat \<Rightarrow> nat \<Rightarrow> xml list \<Rightarrow> load_result" where
  \<comment> \<open>\<open>for iq in root.findall(...)\<close>: the manager, \<open>total_iqs\<close>, \<open>processed_iqs\<close>\<close>
  "minos_loop rnd m total_iqs processed_iqs [] = (None, m, [])"
| "minos_loop rnd m total_iqs processed_iqs (iq # iqs) =
     (case truediv rnd (processed_iqs + 1) total_iqs of
        Inl e \<Rightarrow> (Some e, m, [])
      | Inr q \<Rightarrow>
          (let progress = min (percent rnd q) 100
           in case minos_iq m iq of
                Inl e \<Rightarrow> (Some e, m, [progress])
              | Inr m' \<Rightarrow> emit progress (minos_loop rnd m' total_iqs (processed_iqs + 1) iqs)))"

fun message :: "error \<Rightarrow> string" where
  \<comment> \<open>\<open>str(e)\<close>\<close>
  "message (ValueError s) = s"
| "message (TypeError s) = s"
| "message (AttributeError s) = s"
| "message (FileNotFoundError s) = s"
| "message (IOError s) = s"
| "message (CsvError s) = s"
| "message (ZeroDivisionError s) = s"

definition clean_content :: "string \<Rightarrow> nat \<Rightarrow> string" where
  "clean_content content stream_start =
     (let c = drop stream_start content
      in if find_str ''</stream:stream>'' c = None then c @ ''</stream:stream>'' else c)"

definition minos_body :: "rounding \<Rightarrow> manager \<Rightarrow> xml_parser \<Rightarrow> string \<Rightarrow> load_result" where
  \<comment> \<open>the statements inside the \<open>try\<close> of \<open>load_minos\<close>\<close>
  "minos_body rnd m parse content =
     (case find_str ''<stream:stream'' content of
        None \<Rightarrow> (Some (ValueError ''Invalid Minos file format: No stream element found''), m, [])
      | Some stream_start \<Rightarrow>
          (case parse (clean_content content stream_start) of
             Inl msg \<Rightarrow> (Some (ValueError (''Invalid XML in Minos file: '' @ msg)), m, [])
           | Inr root_elem \<Rightarrow>
               (let total_iqs = length (findall_iq root_elem)
                in if total_iqs = 0
                   then (Some (ValueError ''No QSO records found in file''), m, [])
                   else minos_loop rnd m total_iqs 0 (findall_iq root_elem))))"

definition load_minos :: "rounding \<Rightarrow> manager \<Rightarrow> xml_parser \<Rightarrow> string \<Rightarrow> load_result" where
  \<comment> \<open>the handlers of \<open>load_minos\<close>: a missing file is raised again as it is, every other
      exception becomes an \<open>IOError\<close>; with no exception the loader returns, whatever
      \<open>qso_count\<close> is (a count of zero is logged as a warning)\<close>
  "load_minos rnd m parse content =
     (case minos_body rnd m parse (universal_newlines content) of
        (Some (FileNotFoundError s), m', ps) \<Rightarrow> (Some (FileNotFoundError s), m', ps)
      | (Some e, m', ps) \<Rightarrow> (Some (IOError (''Failed to load Minos file: '' @ message e)), m', ps)
      | (None, m', ps) \<Rightarrow> (None, m', ps))"

section \<open>The generic loader\<close>

definition SUPPORTED_FORMATS :: "string list" where
  "SUPPORTED_FORMATS = [''.csl'', ''.edi'', ''.adi'', ''.adif'', ''.minos'']"

definition path_name :: "string \<Rightarrow> string" where
  \<comment> \<open>\<open>Path(p).name\<close> on a POSIX path: the last component, empty components and single
      dots being dropped\<close>
  "path_name p =
     (case filter (\<lambda>c. c \<noteq> [] \<and> c \<noteq> ''.'') (split p CHR ''/'') of
        [] \<Rightarrow> []
      | c # cs \<Rightarrow> last (c # cs))"

definition suffix :: "string \<Rightarrow> string" where
  \<comment> \<open>\<open>Path(p).suffix\<close>: from the last dot of the name, when that dot is neither its
      first nor its last character\<close>
  "suffix p =
     (let name = path_name p;
          after = takeWhile (\<lambda>c. c \<noteq> CHR ''.'') (rev name)
      in if after = [] \<or> length after + 1 \<ge> length name then []
         else CHR ''.'' # rev after)"

definition bounded_progress :: "real \<Rightarrow> real" where
  \<comment> \<open>the value \<open>bounded_progress\<close> passes on to the caller's callback\<close>
  "bounded_progress percentage = min (max percentage 0) 100"

definition load_file ::
  "rounding \<Rightarrow> manager \<Rightarrow> filesystem \<Rightarrow> xml_parser \<Rightarrow> string \<Rightarrow> bool \<Rightarrow> load_result" where
  \<comment> \<open>the last argument tells whether the caller gave a progress callback; the list
      returned is what that callback receives\<close>
  "load_file rnd m fs parse filepath progress_callback =
     (case files fs filepath of
        None \<Rightarrow> (Some (FileNotFoundError (''File not found: '' @ filepath)), m, [])
      | Some content \<Rightarrow>
          (let extension = lower (suffix filepath) in
           if extension \<notin> set SUPPORTED_FORMATS
           then (Some (ValueError (''Unsupported file format: '' @ extension)), m, [])
           else
             (case (if extension = ''.csl'' then load_csl rnd m content
                    else if extension = ''.edi'' then load_edi rnd m content
                    else if extension \<in> {''.adi'', ''.adif''} then load_adif rnd m content
                    else load_minos rnd m parse content) of
                (err, m', ps) \<Rightarrow>
                  (let delivered = (if progress_callback then map bounded_progress ps else [])
                   in case err of
                        Some e \<Rightarrow> (Some e, m', delivered)
                      | None \<Rightarrow>
                          (None,
                           notify_observers
                             (m'\<lparr>current_file := Some filepath, has_unsaved_changes := True\<rparr>),
                           delivered)))))"

section \<open>Example inputs\<close>

text \<open>
  Three Minos documents, each an XML declaration followed by the stream element, which is
  left open, and the tree that \<open>ElementTree\<close> builds from the stream once the closing
  tag is appended: a stream without any \<open>iq\<close> element, a stream whose only \<open>iq\<close>
  element is not a \<open>MinosLogQSO\<close> call, and a stream with one logged contact. The example
  parser knows these three texts and rejects every other.
\<close>

definition xml_declaration :: string where
  "xml_declaration = ''<?xml version='1.0'?>''"

definition minos_stream_empty :: string where
  "minos_stream_empty =
     ''<stream:stream xmlns:stream='http://etherx.jabber.org/streams' xmlns='minos:client'>''"

definition minos_root_empty :: xml where
  "minos_root_empty = Element ''{http://etherx.jabber.org/streams}stream'' None []"

definition minos_stream_no_qso :: string where
  "minos_stream_no_qso =
     ''<stream:stream xmlns:stream='http://etherx.jabber.org/streams' xmlns='minos:client'><iq type='set'><query xmlns='minos:iq:rpc'><methodCall><methodName>MinosLogComment</methodName></methodCall></query></iq>''"

definition minos_iq_no_qso :: xml where
  "minos_iq_no_qso =
     Element ''{minos:client}iq'' None
       [Element ''{minos:iq:rpc}query'' None
          [Element ''{minos:iq:rpc}methodCall'' None
             [Element ''{minos:iq:rpc}methodName'' (Some ''MinosLogComment'') []]]]"

definition minos_root_no_qso :: xml where
  "minos_root_no_qso = Element ''{http://etherx.jabber.org/streams}stream'' None [minos_iq_no_qso]"

definition minos_stream_one_qso :: string where
  "minos_stream_one_qso =
     ''<stream:stream xmlns:stream='http://etherx.jabber.org/streams' xmlns='minos:client'><iq type='set'><query xmlns='minos:iq:rpc'><methodCall><methodName>MinosLogQSO</methodName><params><param><value><struct><member><name>callRx</name><value><string>G4CTP</string></value></member><member><name>locRx</name><value><string>IO91</string></value></member></struct></value></param></params></methodCall></query></iq>''"

definition minos_member :: "string \<Rightarrow> string \<Rightarrow> xml" where
  "minos_member k v =
     Element ''{minos:iq:rpc}member'' None
       [Element ''{minos:iq:rpc}name'' (Some k) [],
        Element ''{minos:iq:rpc}value'' None [Element ''{minos:iq:rpc}string'' (Some v) []]]"

definition minos_iq_one_qso :: xml where
  "minos_iq_one_qso =
     Element ''{minos:client}iq'' None
       [Element ''{minos:iq:rpc}query'' None
          [Element ''{minos:iq:rpc}methodCall'' None
             [Element ''{minos:iq:rpc}methodName'' (Some ''MinosLogQSO'') [],
              Element ''{minos:iq:rpc}params'' None
                [Element ''{minos:iq:rpc}param'' None
                   [Element ''{minos:iq:rpc}value'' None
                      [Element ''{minos:iq:rpc}struct'' None
                         [minos_member ''callRx'' ''G4CTP'',
                          minos_member ''locRx'' ''IO91'']]]]]]]"

definition minos_root_one_qso :: xml where
  "minos_root_one_qso = Element ''{http://etherx.jabber.org/streams}stream'' None [minos_iq_one_qso]"

definition minos_text_empty :: string where
  "minos_text_empty = xml_declaration @ minos_stream_empty"

definition minos_text_no_qso :: string where
  "minos_text_no_qso = xml_declaration @ minos_stream_no_qso"

definition minos_text_one_qso :: string where
  "minos_text_one_qso = xml_declaration @ minos_stream_one_qso"

definition example_parser :: xml_parser where
  "example_parser s =
     (if s = minos_stream_empty @ ''</stream:stream>'' then Inr minos_root_empty
      else if s = minos_stream_no_qso @ ''</stream:stream>'' then Inr minos_root_no_qso
      else if s = minos_stream_one_qso @ ''</stream:stream>'' then Inr minos_root_one_qso
      else Inl ''syntax error: line 1, column 0'')"

section \<open>Properties of the reconciliation engine\<close>

subsection \<open>Auxiliary facts\<close>

lemmas str_eval = upper_def upper_char_def lower_def lower_char_def strip_def lstrip_def
  rstrip_def is_space_def

lemma rec_eq_refl: "rec_eq a a" by (simp add: rec_eq_def)

lemma rec_eq_callsign: "rec_eq a b \<Longrightarrow> upper (callsign a) = upper (callsign b)"
  by (simp add: rec_eq_def)

lemma list_index_first:
  "\<forall>x\<in>set pre. \<not> rec_eq x e' \<Longrightarrow> rec_eq e e' \<Longrightarrow> list_index (pre @ e # post) e' = Inr (length pre)"
  by (induction pre) auto

lemma list_remove_first:
  "\<forall>x\<in>set pre. \<not> rec_eq x e' \<Longrightarrow> rec_eq e e' \<Longrightarrow> list_remove (pre @ e # post) e' = Inr (pre @ post)"
  by (induction pre) auto

lemma filter_first:
  "filter P xs = e # es \<Longrightarrow> \<exists>pre post. xs = pre @ e # post \<and> (\<forall>x\<in>set pre. \<not> P x) \<and> P e \<and> es = filter P post"
  by (auto simp: filter_eq_Cons_iff)

lemma filter_no_match: "(\<forall>x\<in>set xs. \<not> P x) \<Longrightarrow> filter P xs = []"
  by (induction xs) auto

lemma filter_at_first:
  "\<forall>x\<in>set pre. \<not> P x \<Longrightarrow> P e \<Longrightarrow> filter P (pre @ e # post) = e # filter P post"
  by (simp add: filter_no_match)

lemma add_or_merge_record_total: "\<exists>m'. add_or_merge_record m r = Inr m'"
proof (cases "filter (\<lambda>x. upper (callsign x) = upper (callsign r)) (records m)")
  case Nil
  then show ?thesis
    by (cases "merge_mode m") (simp_all add: add_or_merge_record_def Let_def)
next
  case (Cons e es)
  from filter_first [OF Cons] obtain pre post where
    xs: "records m = pre @ e # post" and
    pre: "\<forall>x\<in>set pre. upper (callsign x) \<noteq> upper (callsign r)" and
    e: "upper (callsign e) = upper (callsign r)"
    by blast
  have ne: "\<forall>x\<in>set pre. \<not> rec_eq x e" using pre e by (auto simp: rec_eq_def)
  have i: "list_index (records m) e = Inr (length pre)"
    using list_index_first [OF ne rec_eq_refl] xs by simp
  have r: "list_remove (records m) e = Inr (pre @ post)"
    using list_remove_first [OF ne rec_eq_refl] xs by simp
  show ?thesis
    by (cases "merge_mode m") (simp_all add: add_or_merge_record_def Let_def Cons i r)
qed

lemma rec_eq_sym: "rec_eq a b = rec_eq b a"
  by (auto simp: rec_eq_def)

lemma no_equal_pair_snoc:
  "no_equal_pair (xs @ [r]) = (no_equal_pair xs \<and> \<not> list_ex (\<lambda>y. rec_eq y r) xs)"
  by (induction xs) (auto simp: list_ex_iff)

lemma no_equal_pair_nth:
  "no_equal_pair xs \<Longrightarrow> i < j \<Longrightarrow> j < length xs \<Longrightarrow> \<not> rec_eq (xs ! i) (xs ! j)"
proof (induction xs arbitrary: i j)
  case Nil
  then show ?case by simp
next
  case (Cons x xs)
  show ?case
  proof (cases i)
    case 0
    then obtain k where j: "j = Suc k" using Cons.prems(2) by (cases j) auto
    then have "xs ! k \<in> set xs" using Cons.prems(3) by simp
    then show ?thesis using Cons.prems(1) 0 j by (auto simp: list_ex_iff)
  next
    case (Suc i')
    then obtain k where j: "j = Suc k" using Cons.prems(2) by (cases j) auto
    then show ?thesis using Cons Suc by auto
  qed
qed

lemma keep_all_step:
  assumes "merge_mode m = KEEP_ALL" and "no_equal_pair (records m)" and "\<not> changes_policy c"
  shows "\<exists>m'. do_call m c = Inr m' \<and> merge_mode m' = KEEP_ALL \<and> no_equal_pair (records m')"
proof (cases c)
  case (Add r)
  then show ?thesis using assms
    by (simp add: add_or_merge_record_def Let_def mark_changed_def notify_observers_def
        no_equal_pair_snoc contains_def)
next
  case (SetMergeMode md)
  then show ?thesis using assms by (simp add: set_merge_mode_def)
next
  case (SetRemoveCallsignOnly v)
  then show ?thesis using assms by (simp add: set_remove_callsign_only_def)
next
  case (AddObserver cb)
  then show ?thesis using assms by (simp add: add_observer_def)
next
  case Reset
  then show ?thesis using assms by (simp add: reset_def notify_observers_def)
qed

lemma keep_all_run:
  "merge_mode m = KEEP_ALL \<Longrightarrow> no_equal_pair (records m) \<Longrightarrow> \<not> list_ex changes_policy cs \<Longrightarrow>
   \<exists>m'. run m cs = Inr m' \<and> no_equal_pair (records m')"
proof (induction cs arbitrary: m)
  case Nil
  then show ?case by simp
next
  case (Cons c cs)
  from Cons.prems have "\<not> changes_policy c" and rest: "\<not> list_ex changes_policy cs" by simp_all
  from keep_all_step [OF Cons.prems(1,2) this(1)] obtain m1 where
    m1: "do_call m c = Inr m1" "merge_mode m1 = KEEP_ALL" "no_equal_pair (records m1)" by blast
  from Cons.IH [OF m1(2,3) rest] show ?case using m1(1) by simp
qed

lemma list_remove_subset: "list_remove xs x = Inr zs \<Longrightarrow> set zs \<subseteq> set xs"
  by (induction xs arbitrary: zs) (auto split: if_splits sum.splits)

lemma filter_hd_mem: "filter P xs = e # es \<Longrightarrow> e \<in> set xs"
proof -
  assume "filter P xs = e # es"
  then have "e \<in> set (filter P xs)" by simp
  then show ?thesis by simp
qed

lemma add_keeps_callsigns_nonempty:
  assumes inv: "\<forall>x\<in>set (records m). callsign x \<noteq> []" and r: "add_or_merge_record m r = Inr m'"
  shows "\<forall>x\<in>set (records m'). callsign x \<noteq> []"
proof (cases "callsign r = [] \<or> (remove_callsign_only m \<and> \<not> has_more_than_callsign r)")
  case True
  then have "m' = m" using r by (auto simp: add_or_merge_record_def split: if_splits)
  then show ?thesis using inv by simp
next
  case False
  let ?ex = "filter (\<lambda>x. upper (callsign x) = upper (callsign r)) (records m)"
  show ?thesis
  proof (cases "merge_mode m")
    case KEEP_ALL
    then show ?thesis using False r inv
      by (auto simp: add_or_merge_record_def Let_def mark_changed_def notify_observers_def
          split: if_splits)
  next
    case KEEP_RECENT
    show ?thesis
    proof (cases ?ex)
      case Nil
      then show ?thesis using False r inv KEEP_RECENT
        by (auto simp: add_or_merge_record_def Let_def mark_changed_def notify_observers_def)
    next
      case (Cons e es)
      then obtain rs where rs: "list_remove (records m) e = Inr rs"
        and m': "m' = mark_changed (m\<lparr>records := rs @ [r]\<rparr>)"
        using False r KEEP_RECENT
        by (auto simp: add_or_merge_record_def Let_def split: sum.splits)
      from list_remove_subset [OF rs] inv have "\<forall>x\<in>set rs. callsign x \<noteq> []" by blast
      then show ?thesis using m' False by (auto simp: mark_changed_def notify_observers_def)
    qed
  next
    case SMART_MERGE
    show ?thesis
    proof (cases ?ex)
      case Nil
      then show ?thesis using False r inv SMART_MERGE
        by (auto simp: add_or_merge_record_def Let_def mark_changed_def notify_observers_def)
    next
      case (Cons e es)
      then obtain i where
        m': "m' = mark_changed (m\<lparr>records := (records m)[i := merged_record e r]\<rparr>)"
        using False r SMART_MERGE
        by (auto simp: add_or_merge_record_def Let_def split: sum.splits)
      have "callsign e \<noteq> []" using filter_hd_mem [OF Cons] inv by blast
      then have "callsign (merged_record e r) \<noteq> []" by (simp add: merged_record_def)
      moreover have "set ((records m)[i := merged_record e r]) \<subseteq> insert (merged_record e r) (set (records m))"
        by (rule set_update_subset_insert)
      ultimately show ?thesis using inv m'
        by (auto simp: mark_changed_def notify_observers_def)
    qed
  qed
qed

lemma call_keeps_callsigns_nonempty:
  assumes "\<forall>x\<in>set (records m). callsign x \<noteq> []"
  shows "\<exists>m'. do_call m c = Inr m' \<and> (\<forall>x\<in>set (records m'). callsign x \<noteq> [])"
proof (cases c)
  case (Add r)
  obtain m' where "add_or_merge_record m r = Inr m'"
    using add_or_merge_record_total by blast
  with add_keeps_callsigns_nonempty [OF assms this] Add show ?thesis by simp
qed (use assms in \<open>simp_all add: set_merge_mode_def set_remove_callsign_only_def
      add_observer_def reset_def notify_observers_def\<close>)

lemma run_keeps_callsigns_nonempty:
  "\<forall>x\<in>set (records m). callsign x \<noteq> [] \<Longrightarrow>
   \<exists>m'. run m cs = Inr m' \<and> (\<forall>x\<in>set (records m'). callsign x \<noteq> [])"
proof (induction cs arbitrary: m)
  case Nil
  then show ?case by simp
next
  case (Cons c cs)
  from call_keeps_callsigns_nonempty [OF Cons.prems] obtain m1 where
    m1: "do_call m c = Inr m1" "\<forall>x\<in>set (records m1). callsign x \<noteq> []" by blast
  from Cons.IH [OF m1(2)] show ?case using m1(1) by simp
qed

subsection \<open>C2: Smart-Merge\<close>

text \<open>
  C2. Under the Smart-Merge policy, an incoming record (with a non-empty callsign) whose
  callsign matches a stored one case-insensitively replaces the first such stored record
  \<open>e\<close> in place: the records before it (\<open>pre\<close>, none of which matches) and after it
  (\<open>post\<close>) stay where they are. The merged record has the callsign of \<open>e\<close> as it was
  stored, and each of locator, exchange and comment is the incoming value when that value
  is non-blank after trimming, and the value of \<open>e\<close> otherwise. When no stored callsign
  matches, a record that reaches the policy (it passes the callsign-only filter) is
  appended.
\<close>

theorem smart_merge_replaces_first_match_or_appends:
  assumes mode: "merge_mode m = SMART_MERGE" and cs: "callsign new_record \<noteq> []"
  shows "(records m = pre @ e # post \<and>
          (\<forall>x\<in>set pre. upper (callsign x) \<noteq> upper (callsign new_record)) \<and>
          upper (callsign e) = upper (callsign new_record) \<longrightarrow>
          (\<exists>m'. add_or_merge_record m new_record = Inr m' \<and>
             records m' =
               pre @ \<lparr>callsign = callsign e,
                      locator = (if strip (locator new_record) \<noteq> [] then locator new_record else locator e),
                      exchange = (if strip (exchange new_record) \<noteq> [] then exchange new_record else exchange e),
                      comment = (if strip (comment new_record) \<noteq> [] then comment new_record else comment e)\<rparr> # post)) \<and>
         ((\<forall>x\<in>set (records m). upper (callsign x) \<noteq> upper (callsign new_record)) \<and>
          (remove_callsign_only m \<longrightarrow> has_more_than_callsign new_record) \<longrightarrow>
          (\<exists>m'. add_or_merge_record m new_record = Inr m' \<and> records m' = records m @ [new_record]))"
proof (intro conjI impI)
  assume a: "records m = pre @ e # post \<and>
          (\<forall>x\<in>set pre. upper (callsign x) \<noteq> upper (callsign new_record)) \<and>
          upper (callsign e) = upper (callsign new_record)"
  let ?P = "\<lambda>x. upper (callsign x) = upper (callsign new_record)"
  let ?mr = "\<lparr>callsign = callsign e,
                      locator = (if strip (locator new_record) \<noteq> [] then locator new_record else locator e),
                      exchange = (if strip (exchange new_record) \<noteq> [] then exchange new_record else exchange e),
                      comment = (if strip (comment new_record) \<noteq> [] then comment new_record else comment e)\<rparr>"
  from a have xs: "records m = pre @ e # post" and pre: "\<forall>x\<in>set pre. \<not> ?P x" and e: "?P e"
    by simp_all
  have f: "filter ?P (records m) = e # filter ?P post"
    unfolding xs using pre e by (rule filter_at_first)
  have ne: "\<forall>x\<in>set pre. \<not> rec_eq x e" using pre e by (auto simp: rec_eq_def)
  have i: "list_index (records m) e = Inr (length pre)"
    using list_index_first [OF ne rec_eq_refl] xs by simp
  show "\<exists>m'. add_or_merge_record m new_record = Inr m' \<and> records m' = pre @ ?mr # post"
  proof (cases "remove_callsign_only m \<and> \<not> has_more_than_callsign new_record")
    case True
    then have "?mr = e" by (simp add: has_more_than_callsign_def)
    moreover have "add_or_merge_record m new_record = Inr m"
      using True cs by (simp add: add_or_merge_record_def)
    ultimately show ?thesis using xs by simp
  next
    case False
    then have "add_or_merge_record m new_record =
        Inr (mark_changed (m\<lparr>records := (records m)[length pre := merged_record e new_record]\<rparr>))"
      using cs mode by (auto simp add: add_or_merge_record_def Let_def f i)
    then show ?thesis
      by (simp add: mark_changed_def notify_observers_def xs merged_record_def)
  qed
next
  assume b: "(\<forall>x\<in>set (records m). upper (callsign x) \<noteq> upper (callsign new_record)) \<and>
          (remove_callsign_only m \<longrightarrow> has_more_than_callsign new_record)"
  then have "filter (\<lambda>x. upper (callsign x) = upper (callsign new_record)) (records m) = []"
    by (simp add: filter_no_match)
  then have "add_or_merge_record m new_record =
      Inr (mark_changed (m\<lparr>records := records m @ [new_record]\<rparr>))"
    using b cs mode by (auto simp add: add_or_merge_record_def Let_def)
  then show "\<exists>m'. add_or_merge_record m new_record = Inr m' \<and> records m' = records m @ [new_record]"
    by (simp add: mark_changed_def notify_observers_def)
qed

text \<open>
  The theorem at a store of three records, two of them matching the incoming callsign
  (the first is merged, its casing kept, a blank incoming locator ignored), and at a store
  without a match (the record is appended as it came).
\<close>

theorem smart_merge_replaces_first_match_or_appends_witness:
  "(\<exists>m'. add_or_merge_record
           (new_manager\<lparr>merge_mode := SMART_MERGE, remove_callsign_only := True,
              records := [\<lparr>callsign = ''M0ABC'', locator = ''JO01'', exchange = ''007'', comment = []\<rparr>,
                          \<lparr>callsign = ''G4ctp'', locator = ''IO91'', exchange = ''001'', comment = ''first''\<rparr>,
                          \<lparr>callsign = ''G4CTP'', locator = ''IO92'', exchange = ''002'', comment = []\<rparr>]\<rparr>)
           \<lparr>callsign = ''g4ctp'', locator = ''  '', exchange = ''59003'', comment = []\<rparr> = Inr m' \<and>
         records m' =
           [\<lparr>callsign = ''M0ABC'', locator = ''JO01'', exchange = ''007'', comment = []\<rparr>,
            \<lparr>callsign = ''G4ctp'', locator = ''IO91'', exchange = ''59003'', comment = ''first''\<rparr>,
            \<lparr>callsign = ''G4CTP'', locator = ''IO92'', exchange = ''002'', comment = []\<rparr>]) \<and>
   (\<exists>m'. add_or_merge_record
           (new_manager\<lparr>merge_mode := SMART_MERGE, remove_callsign_only := True,
              records := [\<lparr>callsign = ''M0ABC'', locator = ''JO01'', exchange = ''007'', comment = []\<rparr>]\<rparr>)
           \<lparr>callsign = ''g4ctp'', locator = ''  '', exchange = ''59003'', comment = []\<rparr> = Inr m' \<and>
         records m' =
           [\<lparr>callsign = ''M0ABC'', locator = ''JO01'', exchange = ''007'', comment = []\<rparr>,
            \<lparr>callsign = ''g4ctp'', locator = ''  '', exchange = ''59003'', comment = []\<rparr>])"
proof
  let ?new = "\<lparr>callsign = ''g4ctp'', locator = ''  '', exchange = ''59003'', comment = []\<rparr>"
  let ?a = "\<lparr>callsign = ''M0ABC'', locator = ''JO01'', exchange = ''007'', comment = []\<rparr>"
  let ?e = "\<lparr>callsign = ''G4ctp'', locator = ''IO91'', exchange = ''001'', comment = ''first''\<rparr>"
  let ?b = "\<lparr>callsign = ''G4CTP'', locator = ''IO92'', exchange = ''002'', comment = []\<rparr>"
  let ?m = "new_manager\<lparr>merge_mode := SMART_MERGE, remove_callsign_only := True, records := [?a, ?e, ?b]\<rparr>"
  have mode: "merge_mode ?m = SMART_MERGE" by simp
  have cs: "callsign ?new \<noteq> []" by simp
  have hyp: "records ?m = [?a] @ ?e # [?b] \<and>
      (\<forall>x\<in>set [?a]. upper (callsign x) \<noteq> upper (callsign ?new)) \<and>
      upper (callsign ?e) = upper (callsign ?new)"
    by (simp add: str_eval)
  from smart_merge_replaces_first_match_or_appends [OF mode cs, of "[?a]" ?e "[?b]"] hyp
  show "\<exists>m'. add_or_merge_record ?m ?new = Inr m' \<and> records m' =
           [?a, \<lparr>callsign = ''G4ctp'', locator = ''IO91'', exchange = ''59003'', comment = ''first''\<rparr>, ?b]"
    by (simp add: str_eval)
next
  let ?new = "\<lparr>callsign = ''g4ctp'', locator = ''  '', exchange = ''59003'', comment = []\<rparr>"
  let ?a = "\<lparr>callsign = ''M0ABC'', locator = ''JO01'', exchange = ''007'', comment = []\<rparr>"
  let ?m = "new_manager\<lparr>merge_mode := SMART_MERGE, remove_callsign_only := True, records := [?a]\<rparr>"
  have mode: "merge_mode ?m = SMART_MERGE" by simp
  have cs: "callsign ?new \<noteq> []" by simp
  have hyp: "(\<forall>x\<in>set (records ?m). upper (callsign x) \<noteq> upper (callsign ?new)) \<and>
          (remove_callsign_only ?m \<longrightarrow> has_more_than_callsign ?new)"
    by (simp add: str_eval has_more_than_callsign_def)
  from smart_merge_replaces_first_match_or_appends [OF mode cs, of "[]" ?a "[]"] hyp
  show "\<exists>m'. add_or_merge_record ?m ?new = Inr m' \<and> records m' = [?a, ?new]"
    by simp
qed

subsection \<open>C3: Keep-Most-Recent\<close>

text \<open>
  C3. Under the Keep-Most-Recent policy with the filter off, adding to an empty store two
  records with non-empty callsigns that are equal case-insensitively leaves exactly one
  record in the store, and it is the second record with all of its field values.
\<close>

theorem keep_recent_last_write_wins:
  assumes mode: "merge_mode m = KEEP_RECENT" and empty: "records m = []"
    and off: "\<not> remove_callsign_only m"
    and c1: "callsign r1 \<noteq> []" and c2: "callsign r2 \<noteq> []"
    and same: "upper (callsign r1) = upper (callsign r2)"
  shows "\<exists>m1 m2. add_or_merge_record m r1 = Inr m1 \<and> add_or_merge_record m1 r2 = Inr m2 \<and>
           records m2 = [r2] \<and>
           filter (\<lambda>x. upper (callsign x) = upper (callsign r2)) (records m2) = [r2]"
proof -
  let ?m1 = "mark_changed (m\<lparr>records := [r1]\<rparr>)"
  have 1: "add_or_merge_record m r1 = Inr ?m1"
    using mode empty off c1 by (simp add: add_or_merge_record_def)
  have m1: "records ?m1 = [r1]" "merge_mode ?m1 = KEEP_RECENT" "\<not> remove_callsign_only ?m1"
    using mode off by (simp_all add: mark_changed_def notify_observers_def)
  have 2: "add_or_merge_record ?m1 r2 = Inr (mark_changed (?m1\<lparr>records := [r2]\<rparr>))"
    using m1 c2 same by (simp add: add_or_merge_record_def rec_eq_refl)
  have "records (mark_changed (?m1\<lparr>records := [r2]\<rparr>)) = [r2]"
    by (simp add: mark_changed_def notify_observers_def)
  with 1 2 show ?thesis by simp
qed

text \<open>The theorem at two records that differ in casing, locator, exchange and comment.\<close>

theorem keep_recent_last_write_wins_witness:
  "\<exists>m1 m2.
     add_or_merge_record (new_manager\<lparr>merge_mode := KEEP_RECENT\<rparr>)
       \<lparr>callsign = ''G4CTP'', locator = ''IO91'', exchange = ''001'', comment = ''first''\<rparr> = Inr m1 \<and>
     add_or_merge_record m1
       \<lparr>callsign = ''g4ctp'', locator = ''IO92'', exchange = ''002'', comment = []\<rparr> = Inr m2 \<and>
     records m2 = [\<lparr>callsign = ''g4ctp'', locator = ''IO92'', exchange = ''002'', comment = []\<rparr>]"
proof -
  let ?m = "new_manager\<lparr>merge_mode := KEEP_RECENT\<rparr>"
  let ?r1 = "\<lparr>callsign = ''G4CTP'', locator = ''IO91'', exchange = ''001'', comment = ''first''\<rparr>"
  let ?r2 = "\<lparr>callsign = ''g4ctp'', locator = ''IO92'', exchange = ''002'', comment = []\<rparr>"
  have "merge_mode ?m = KEEP_RECENT" "records ?m = []" "\<not> remove_callsign_only ?m"
    by (simp_all add: new_manager_def)
  moreover have "callsign ?r1 \<noteq> []" "callsign ?r2 \<noteq> []" by simp_all
  moreover have "upper (callsign ?r1) = upper (callsign ?r2)" by (simp add: str_eval)
  ultimately show ?thesis
    using keep_recent_last_write_wins [of ?m ?r1 ?r2] by blast
qed

subsection \<open>C4: Keep-All stores no two value-equal records\<close>

text \<open>
  C4. A store that starts empty and is changed only by calls of the manager that stay
  under the Keep-All policy (records added through \<open>add_or_merge_record\<close>, the filter
  switched, observers registered, resets) never holds two value-equal records: for any
  two positions \<open>i < j\<close> of the store, \<open>rec_eq\<close> of the two records is false.
\<close>

theorem keep_all_never_stores_value_equal_records:
  assumes "\<not> list_ex changes_policy cs"
  shows "\<exists>m. run new_manager cs = Inr m \<and>
           (\<forall>i j. i < j \<and> j < length (records m) \<longrightarrow> \<not> rec_eq (records m ! i) (records m ! j))"
proof -
  have "merge_mode new_manager = KEEP_ALL" "no_equal_pair (records new_manager)"
    by (simp_all add: new_manager_def)
  from keep_all_run [OF this assms] obtain m where
    "run new_manager cs = Inr m" "no_equal_pair (records m)" by blast
  then show ?thesis using no_equal_pair_nth by blast
qed

text \<open>
  The theorem at a sequence that adds a record, a value-equal one (other casing, padded
  locator) and one that differs in the casing of the locator: two records are stored.
\<close>

theorem keep_all_never_stores_value_equal_records_witness:
  "\<not> list_ex changes_policy
       [Add \<lparr>callsign = ''G4CTP'', locator = ''IO91'', exchange = ''001'', comment = []\<rparr>,
        SetRemoveCallsignOnly True,
        Add \<lparr>callsign = ''g4ctp'', locator = '' IO91 '', exchange = ''001'', comment = []\<rparr>,
        Add \<lparr>callsign = ''G4CTP'', locator = ''io91'', exchange = ''001'', comment = []\<rparr>] \<and>
   (\<exists>m. run new_manager
       [Add \<lparr>callsign = ''G4CTP'', locator = ''IO91'', exchange = ''001'', comment = []\<rparr>,
        SetRemoveCallsignOnly True,
        Add \<lparr>callsign = ''g4ctp'', locator = '' IO91 '', exchange = ''001'', comment = []\<rparr>,
        Add \<lparr>callsign = ''G4CTP'', locator = ''io91'', exchange = ''001'', comment = []\<rparr>] = Inr m \<and>
      records m = [\<lparr>callsign = ''G4CTP'', locator = ''IO91'', exchange = ''001'', comment = []\<rparr>,
                   \<lparr>callsign = ''G4CTP'', locator = ''io91'', exchange = ''001'', comment = []\<rparr>] \<and>
      \<not> rec_eq (records m ! 0) (records m ! 1))"
proof -
  let ?cs = "[Add \<lparr>callsign = ''G4CTP'', locator = ''IO91'', exchange = ''001'', comment = []\<rparr>,
        SetRemoveCallsignOnly True,
        Add \<lparr>callsign = ''g4ctp'', locator = '' IO91 '', exchange = ''001'', comment = []\<rparr>,
        Add \<lparr>callsign = ''G4CTP'', locator = ''io91'', exchange = ''001'', comment = []\<rparr>]"
  have h: "\<not> list_ex changes_policy ?cs" by simp
  from keep_all_never_stores_value_equal_records [OF h] obtain m where
    m: "run new_manager ?cs = Inr m"
    and d: "\<forall>i j. i < j \<and> j < length (records m) \<longrightarrow> \<not> rec_eq (records m ! i) (records m ! j)"
    by blast
  have "run new_manager ?cs = Inr (new_manager\<lparr>remove_callsign_only := True, has_unsaved_changes := True,
      records := [\<lparr>callsign = ''G4CTP'', locator = ''IO91'', exchange = ''001'', comment = []\<rparr>,
                   \<lparr>callsign = ''G4CTP'', locator = ''io91'', exchange = ''001'', comment = []\<rparr>]\<rparr>)"
    by (simp add: new_manager_def add_or_merge_record_def set_remove_callsign_only_def
        mark_changed_def notify_observers_def contains_def rec_eq_def has_more_than_callsign_def str_eval)
  with m have r: "records m = [\<lparr>callsign = ''G4CTP'', locator = ''IO91'', exchange = ''001'', comment = []\<rparr>,
                   \<lparr>callsign = ''G4CTP'', locator = ''io91'', exchange = ''001'', comment = []\<rparr>]"
    by auto
  then have "(0::nat) < 1 \<and> 1 < length (records m)" by simp
  with d have "\<not> rec_eq (records m ! 0) (records m ! 1)" by blast
  with h m r show ?thesis by blast
qed

subsection \<open>C5: records without a callsign\<close>

text \<open>
  C5, as the code has it. The guard of \<open>add_or_merge_record\<close> tests the callsign for
  emptiness, without trimming: a record whose callsign is a blank is stored.
\<close>

theorem blank_callsign_discarded_counterexample:
  "strip (callsign \<lparr>callsign = '' '', locator = ''IO91'', exchange = ''001'', comment = []\<rparr>) = [] \<and>
   add_or_merge_record new_manager \<lparr>callsign = '' '', locator = ''IO91'', exchange = ''001'', comment = []\<rparr>
     = Inr (new_manager\<lparr>records := [\<lparr>callsign = '' '', locator = ''IO91'', exchange = ''001'', comment = []\<rparr>],
                         has_unsaved_changes := True\<rparr>) \<and>
   new_manager\<lparr>records := [\<lparr>callsign = '' '', locator = ''IO91'', exchange = ''001'', comment = []\<rparr>],
                has_unsaved_changes := True\<rparr> \<noteq> new_manager"
  by (simp add: new_manager_def add_or_merge_record_def mark_changed_def notify_observers_def
      contains_def str_eval)

text \<open>
  C5, amended. An incoming record whose callsign is the empty string is discarded and the
  manager is left exactly as it was, under every policy and filter setting; and after any
  sequence of calls on a new manager no stored record has an empty callsign.
\<close>

theorem empty_callsign_is_discarded_and_never_stored:
  "(callsign r = [] \<longrightarrow> add_or_merge_record m r = Inr m) \<and>
   (\<exists>m'. run new_manager cs = Inr m' \<and> (\<forall>x\<in>set (records m'). callsign x \<noteq> []))"
proof
  show "callsign r = [] \<longrightarrow> add_or_merge_record m r = Inr m"
    by (simp add: add_or_merge_record_def)
  have "\<forall>x\<in>set (records new_manager). callsign x \<noteq> []" by (simp add: new_manager_def)
  then show "\<exists>m'. run new_manager cs = Inr m' \<and> (\<forall>x\<in>set (records m'). callsign x \<noteq> [])"
    by (rule run_keeps_callsigns_nonempty)
qed

text \<open>The theorem at a Smart-Merge store and a sequence that mixes policies.\<close>

theorem empty_callsign_is_discarded_and_never_stored_witness:
  "add_or_merge_record
     (new_manager\<lparr>merge_mode := SMART_MERGE,
        records := [\<lparr>callsign = ''G4CTP'', locator = ''IO91'', exchange = ''001'', comment = []\<rparr>]\<rparr>)
     \<lparr>callsign = [], locator = ''IO92'', exchange = ''002'', comment = ''x''\<rparr>
   = Inr (new_manager\<lparr>merge_mode := SMART_MERGE,
        records := [\<lparr>callsign = ''G4CTP'', locator = ''IO91'', exchange = ''001'', comment = []\<rparr>]\<rparr>) \<and>
   (\<exists>m'. run new_manager
        [Add \<lparr>callsign = ''G4CTP'', locator = ''IO91'', exchange = ''001'', comment = []\<rparr>,
         SetMergeMode SMART_MERGE,
         Add \<lparr>callsign = [], locator = ''IO92'', exchange = ''002'', comment = ''x''\<rparr>,
         Add \<lparr>callsign = ''g4ctp'', locator = ''IO92'', exchange = [], comment = ''x''\<rparr>] = Inr m' \<and>
      list_all (\<lambda>x. callsign x \<noteq> []) (records m'))"
  using empty_callsign_is_discarded_and_never_stored
    [of "\<lparr>callsign = [], locator = ''IO92'', exchange = ''002'', comment = ''x''\<rparr>"
        "new_manager\<lparr>merge_mode := SMART_MERGE,
        records := [\<lparr>callsign = ''G4CTP'', locator = ''IO91'', exchange = ''001'', comment = []\<rparr>]\<rparr>"
        "[Add \<lparr>callsign = ''G4CTP'', locator = ''IO91'', exchange = ''001'', comment = []\<rparr>,
         SetMergeMode SMART_MERGE,
         Add \<lparr>callsign = [], locator = ''IO92'', exchange = ''002'', comment = ''x''\<rparr>,
         Add \<lparr>callsign = ''g4ctp'', locator = ''IO92'', exchange = [], comment = ''x''\<rparr>]"]
  by (simp add: list_all_iff)

subsection \<open>C10: the dirty flag and the observers\<close>

text \<open>
  C10. For an incoming record with a non-empty callsign that passes the callsign-only
  filter, \<open>add_or_merge_record\<close> returns with the dirty flag set and with every
  registered observer invoked once, in registration order, whatever the policy does to
  the record list.
\<close>

theorem accepted_record_marks_dirty_and_notifies:
  assumes "callsign r \<noteq> []" and "remove_callsign_only m \<longrightarrow> has_more_than_callsign r"
  shows "\<exists>m'. add_or_merge_record m r = Inr m' \<and> has_unsaved_changes m' \<and>
           notified m' = notified m @ observers m \<and> observers m' = observers m"
proof -
  obtain m' where m': "add_or_merge_record m r = Inr m'"
    using add_or_merge_record_total by blast
  have "has_unsaved_changes m' \<and> notified m' = notified m @ observers m \<and> observers m' = observers m"
    using m' assms
    by (auto simp: add_or_merge_record_def Let_def mark_changed_def notify_observers_def
        split: MergeMode.splits list.splits sum.splits if_splits)
  with m' show ?thesis by simp
qed

text \<open>
  The theorem where Keep-All suppresses a value-equal duplicate: the record list is
  unchanged, the flag is set and both observers are invoked.
\<close>

theorem accepted_record_marks_dirty_and_notifies_witness:
  "\<exists>m'. add_or_merge_record
          (new_manager\<lparr>observers := [1, 2], notified := [7],
             records := [\<lparr>callsign = ''G4CTP'', locator = ''IO91'', exchange = ''001'', comment = []\<rparr>]\<rparr>)
          \<lparr>callsign = ''g4ctp'', locator = '' IO91'', exchange = ''001'', comment = []\<rparr> = Inr m' \<and>
        has_unsaved_changes m' \<and> notified m' = [7, 1, 2] \<and>
        records m' = [\<lparr>callsign = ''G4CTP'', locator = ''IO91'', exchange = ''001'', comment = []\<rparr>]"
proof -
  let ?m = "new_manager\<lparr>observers := [1, 2], notified := [7],
             records := [\<lparr>callsign = ''G4CTP'', locator = ''IO91'', exchange = ''001'', comment = []\<rparr>]\<rparr>"
  let ?r = "\<lparr>callsign = ''g4ctp'', locator = '' IO91'', exchange = ''001'', comment = []\<rparr>"
  have 1: "callsign ?r \<noteq> []" by simp
  have 2: "remove_callsign_only ?m \<longrightarrow> has_more_than_callsign ?r" by (simp add: new_manager_def)
  from accepted_record_marks_dirty_and_notifies [OF 1 2] obtain m' where
    m': "add_or_merge_record ?m ?r = Inr m'" "has_unsaved_changes m'"
        "notified m' = notified ?m @ observers ?m" by blast
  have "add_or_merge_record ?m ?r = Inr (mark_changed ?m)"
    by (simp add: new_manager_def add_or_merge_record_def contains_def rec_eq_def str_eval)
  with m'(1) have "records m' = records ?m"
    by (auto simp: mark_changed_def notify_observers_def)
  with m' show ?thesis by simp
qed

section \<open>Properties of saving and loading CSL\<close>

lemmas csv_eval = csv_reader_rows_def parse_reset_def parse_save_field_def parse_add_char_def
  after_eol_def field_limit_def writerows_def writerow_def quote_field_def escaped_def
  needs_quoting_def
  readlines_def

subsection \<open>The header lines on reading\<close>

lemma header_lines:
  "readlines (universal_newlines (HEADER @ [LF] @ rest)) =
     (''# Minos CSL Utility by G4CTP v0.7'' @ [LF]) #
     (''# <Callsign>, <Locator>, <Exchange>, <Comment>'' @ [LF]) #
     readlines (universal_newlines rest)"
  by (simp add: HEADER_def VERSION_def readlines_def)

lemma header_rows:
  "csv_reader_rows ((''# Minos CSL Utility by G4CTP v0.7'' @ [LF]) #
     (''# <Callsign>, <Locator>, <Exchange>, <Comment>'' @ [LF]) # ls) =
   (case csv_reader_rows ls of
      (rows, e) \<Rightarrow>
        ([''# Minos CSL Utility by G4CTP v0.7''] #
         [''# <Callsign>'', '' <Locator>'', '' <Exchange>'', '' <Comment>''] # rows, e))"
  by (simp add: csv_reader_rows_def parse_reset_def parse_save_field_def parse_add_char_def
      after_eol_def field_limit_def split: prod.splits)

lemma keep_all_add_appends:
  assumes "merge_mode m = KEEP_ALL" and "add_or_merge_record m r = Inr m'"
  shows "merge_mode m' = KEEP_ALL \<and> (\<exists>ys. records m' = records m @ ys)"
  using assms
  by (auto simp: add_or_merge_record_def Let_def mark_changed_def notify_observers_def
      split: if_splits)

lemma keep_all_add_row_appends:
  assumes "merge_mode m = KEEP_ALL" and "add_row m row = Inr m'"
  shows "merge_mode m' = KEEP_ALL \<and> (\<exists>ys. records m' = records m @ ys)"
  using assms keep_all_add_appends
  by (auto simp: add_row_def split: sum.splits)

lemma keep_all_loop_appends:
  "merge_mode m = KEEP_ALL \<Longrightarrow> csl_rows_loop rnd m t k err rows = (e, m', ps) \<Longrightarrow>
   \<exists>ys. records m' = records m @ ys"
proof (induction rows arbitrary: m k e m' ps)
  case Nil
  then show ?case by simp
next
  case (Cons row rows)
  show ?case
  proof (cases "if row \<noteq> [] then add_row m row else Inr m")
    case (Inl err)
    then show ?thesis using Cons.prems by simp
  next
    case (Inr m1)
    then have m1: "merge_mode m1 = KEEP_ALL" and app: "\<exists>ys. records m1 = records m @ ys"
      using keep_all_add_row_appends [of m row m1] Cons.prems(1) by (auto split: if_splits)
    show ?thesis
    proof (cases "truediv rnd (k + 1) t")
      case (Inl err)
      then show ?thesis using Cons.prems Inr app by auto
    next
      case q: (Inr q)
      obtain e2 m2 ps2 where r: "csl_rows_loop rnd m1 t (k + 1) err rows = (e2, m2, ps2)"
        by (cases "csl_rows_loop rnd m1 t (k + 1) err rows") auto
      from Cons.IH [OF m1 r] obtain zs where "records m2 = records m1 @ zs" by blast
      moreover have "m' = m2" using Cons.prems(2) Inr q r by simp
      ultimately show ?thesis using app by auto
    qed
  qed
qed

text \<open>
  Whatever the records are, the text \<open>save_csl\<close> writes loads into a new manager so that
  the first stored record is the one read from the column legend.
\<close>

lemma reload_starts_with_legend_record:
  "\<exists>e m ps. load_csl rnd new_manager (csl_text rs) = (e, m, ps) \<and>
     take 1 (records m) = [\<lparr>callsign = ''# <Callsign>'', locator = ''<Locator>'',
                            exchange = ''<Exchange>'', comment = ''<Comment>''\<rparr>]"
proof -
  let ?legend = "\<lparr>callsign = ''# <Callsign>'', locator = ''<Locator>'',
                            exchange = ''<Exchange>'', comment = ''<Comment>''\<rparr>"
  let ?rest = "writerows (map to_list rs)"
  let ?ls = "readlines (universal_newlines ?rest)"
  obtain rows err where rows: "csv_reader_rows ?ls = (rows, err)"
    by (cases "csv_reader_rows ?ls") auto
  let ?m1 = "mark_changed (new_manager\<lparr>records := [?legend]\<rparr>)"
  have add: "add_row new_manager [''# <Callsign>'', '' <Locator>'', '' <Exchange>'', '' <Comment>''] = Inr ?m1"
    by (simp add: add_row_def add_or_merge_record_def new_manager_def contains_def str_eval)
  have q: "truediv rnd 1 (Suc (Suc (length ?ls))) = Inr (rnd (1 / real (Suc (Suc (length ?ls)))))"
    by (simp add: truediv_def)
  obtain e m ps where loop: "csl_rows_loop rnd ?m1 (Suc (Suc (length ?ls))) 1 err rows = (e, m, ps)"
    by (cases "csl_rows_loop rnd ?m1 (Suc (Suc (length ?ls))) 1 err rows") auto
  have mode: "merge_mode ?m1 = KEEP_ALL"
    by (simp add: mark_changed_def notify_observers_def new_manager_def)
  from keep_all_loop_appends [OF mode loop] obtain ys where "records m = records ?m1 @ ys" by blast
  then have hd: "take 1 (records m) = [?legend]"
    by (simp add: mark_changed_def notify_observers_def)
  have "load_csl rnd new_manager (csl_text rs) = (e, m, percent rnd (rnd (1 / real (Suc (Suc (length ?ls))))) # ps)"
    unfolding load_csl_def csl_text_def header_lines
    using rows add q loop
    by (simp add: header_rows [simplified] startswith_def)
  with hd show ?thesis by blast
qed

subsection \<open>The reader on the rows the writer produces\<close>

lemma parse_line_append:
  "parse_line p (a @ b) =
     (case parse_chars p a of Inl e \<Rightarrow> Inl e | Inr p' \<Rightarrow> parse_line p' b)"
  by (induction a arbitrary: p) (auto split: sum.splits)

lemma parse_chars_append:
  "parse_chars p (a @ b) =
     (case parse_chars p a of Inl e \<Rightarrow> Inl e | Inr p' \<Rightarrow> parse_chars p' b)"
  by (induction a arbitrary: p) (auto split: sum.splits)

lemma in_field_plain:
  "pstate p = IN_FIELD \<Longrightarrow> \<not> list_ex needs_quoting g \<Longrightarrow>
   length (pfield p) + length g \<le> field_limit \<Longrightarrow>
   parse_chars p g = Inr (p\<lparr>pfield := pfield p @ g\<rparr>)"
proof (induction g arbitrary: p)
  case Nil
  then show ?case by simp
next
  case (Cons c g)
  from Cons.prems(2) have nq: "\<not> needs_quoting c" and g: "\<not> list_ex needs_quoting g"
    by simp_all
  from nq have c: "c \<noteq> CHR '',''" "c \<noteq> CHR 0x22" "c \<noteq> CR" "c \<noteq> LF"
    by (simp_all add: needs_quoting_def)
  let ?p1 = "p\<lparr>pfield := pfield p @ [c]\<rparr>"
  have step: "parse_process_char p (Some c) = Inr ?p1"
    using Cons.prems(1,3) c by (simp add: parse_add_char_def)
  have "parse_chars ?p1 g = Inr (?p1\<lparr>pfield := pfield ?p1 @ g\<rparr>)"
    by (rule Cons.IH) (use Cons.prems g in simp_all)
  then show ?case using step by simp
qed

lemma in_quoted_escaped:
  "pstate p = IN_QUOTED_FIELD \<Longrightarrow> length (pfield p) + length g \<le> field_limit \<Longrightarrow>
   parse_chars p (escaped g) = Inr (p\<lparr>pfield := pfield p @ g\<rparr>)"
proof (induction g arbitrary: p)
  case Nil
  then show ?case by (simp add: escaped_def)
next
  case (Cons c g)
  let ?p1 = "p\<lparr>pfield := pfield p @ [c]\<rparr>"
  have ih: "parse_chars ?p1 (escaped g) = Inr (?p1\<lparr>pfield := pfield ?p1 @ g\<rparr>)"
    by (rule Cons.IH) (use Cons.prems in simp_all)
  show ?case
  proof (cases "c = CHR 0x22")
    case True
    have same: "p\<lparr>pfield := pfield p @ [CHR 0x22], pstate := IN_QUOTED_FIELD\<rparr> =
        p\<lparr>pfield := pfield p @ [CHR 0x22]\<rparr>"
      using Cons.prems(1) by (cases p) simp
    have "parse_chars p (escaped (c # g)) = parse_chars ?p1 (escaped g)"
      using True Cons.prems by (simp add: escaped_def parse_add_char_def same)
    then show ?thesis using ih by simp
  next
    case False
    have "parse_chars p (escaped (c # g)) = parse_chars ?p1 (escaped g)"
      using False Cons.prems by (simp add: escaped_def parse_add_char_def)
    then show ?thesis using ih by simp
  qed
qed

lemma quoted_field_parsed:
  assumes "s = START_RECORD \<or> s = START_FIELD" and "length f \<le> field_limit"
  shows "parse_chars \<lparr>pstate = s, pfields = fl, pfield = []\<rparr> ([CHR 0x22] @ escaped f @ [CHR 0x22]) =
           Inr \<lparr>pstate = QUOTE_IN_QUOTED_FIELD, pfields = fl, pfield = f\<rparr>"
proof -
  let ?p1 = "\<lparr>pstate = IN_QUOTED_FIELD, pfields = fl, pfield = []\<rparr>"
  have open_quote: "parse_process_char \<lparr>pstate = s, pfields = fl, pfield = []\<rparr> (Some (CHR 0x22)) = Inr ?p1"
    using assms(1) by auto
  have body: "parse_chars ?p1 (escaped f) = Inr (?p1\<lparr>pfield := pfield ?p1 @ f\<rparr>)"
    by (rule in_quoted_escaped) (use assms(2) in simp_all)
  show ?thesis
    using open_quote body by (simp add: parse_chars_append)
qed

lemma plain_field_parsed:
  assumes "s = START_RECORD \<or> s = START_FIELD" and "length (c # g) \<le> field_limit"
    and "\<not> list_ex needs_quoting (c # g)"
  shows "parse_chars \<lparr>pstate = s, pfields = fl, pfield = []\<rparr> (c # g) =
           Inr \<lparr>pstate = IN_FIELD, pfields = fl, pfield = c # g\<rparr>"
proof -
  from assms(3) have nq: "\<not> needs_quoting c" and g: "\<not> list_ex needs_quoting g" by simp_all
  from nq have c: "c \<noteq> CHR '',''" "c \<noteq> CHR 0x22" "c \<noteq> CR" "c \<noteq> LF"
    by (simp_all add: needs_quoting_def)
  let ?p1 = "\<lparr>pstate = IN_FIELD, pfields = fl, pfield = [c]\<rparr>"
  have first: "parse_process_char \<lparr>pstate = s, pfields = fl, pfield = []\<rparr> (Some c) = Inr ?p1"
    using assms(1) c by (auto simp: parse_add_char_def field_limit_def)
  have rest: "parse_chars ?p1 g = Inr (?p1\<lparr>pfield := pfield ?p1 @ g\<rparr>)"
    by (rule in_field_plain) (use assms(2) g in simp_all)
  show ?thesis using first rest by simp
qed

lemma field_then_comma:
  assumes s: "s = START_RECORD \<or> s = START_FIELD" and len: "length f \<le> field_limit"
  shows "parse_chars \<lparr>pstate = s, pfields = fl, pfield = []\<rparr> (quote_field f @ [CHR '','']) =
           Inr \<lparr>pstate = START_FIELD, pfields = fl @ [f], pfield = []\<rparr>"
proof (cases "list_ex needs_quoting f")
  case True
  let ?q = "[CHR 0x22] @ escaped f @ [CHR 0x22]"
  have "quote_field f = ?q" using True by (simp add: quote_field_def)
  then have "parse_chars \<lparr>pstate = s, pfields = fl, pfield = []\<rparr> (quote_field f @ [CHR '','']) =
      (case parse_chars \<lparr>pstate = s, pfields = fl, pfield = []\<rparr> ?q of
         Inl e \<Rightarrow> Inl e | Inr p' \<Rightarrow> parse_chars p' [CHR '',''])"
    by (simp only: parse_chars_append)
  also have "\<dots> = parse_chars \<lparr>pstate = QUOTE_IN_QUOTED_FIELD, pfields = fl, pfield = f\<rparr> [CHR '','']"
    by (simp only: quoted_field_parsed [OF s len] sum.case)
  also have "\<dots> = Inr \<lparr>pstate = START_FIELD, pfields = fl @ [f], pfield = []\<rparr>"
    by (simp add: parse_save_field_def)
  finally show ?thesis .
next
  case False
  show ?thesis
  proof (cases f)
    case Nil
    then show ?thesis using s by (auto simp: quote_field_def parse_save_field_def)
  next
    case (Cons c g)
    have q: "quote_field f = c # g" using False Cons by (simp add: quote_field_def)
    have "parse_chars \<lparr>pstate = s, pfields = fl, pfield = []\<rparr> (quote_field f @ [CHR '','']) =
      (case parse_chars \<lparr>pstate = s, pfields = fl, pfield = []\<rparr> (c # g) of
         Inl e \<Rightarrow> Inl e | Inr p' \<Rightarrow> parse_chars p' [CHR '',''])"
      by (simp only: q parse_chars_append)
    also have "\<dots> = parse_chars \<lparr>pstate = IN_FIELD, pfields = fl, pfield = c # g\<rparr> [CHR '','']"
      using plain_field_parsed [OF s, of c g fl] len False Cons by simp
    also have "\<dots> = Inr \<lparr>pstate = START_FIELD, pfields = fl @ [f], pfield = []\<rparr>"
      using Cons by (simp add: parse_save_field_def)
    finally show ?thesis .
  qed
qed

lemma field_then_newline:
  assumes len: "length f \<le> field_limit"
  shows "parse_line \<lparr>pstate = START_FIELD, pfields = fl, pfield = []\<rparr> (quote_field f @ [LF]) =
           Inr \<lparr>pstate = START_RECORD, pfields = fl @ [f], pfield = []\<rparr>"
proof -
  have s: "START_FIELD = START_RECORD \<or> START_FIELD = START_FIELD" by simp
  let ?p = "\<lparr>pstate = START_FIELD, pfields = fl, pfield = []\<rparr>"
  show ?thesis
  proof (cases "list_ex needs_quoting f")
    case True
    let ?q = "[CHR 0x22] @ escaped f @ [CHR 0x22]"
    have "quote_field f = ?q" using True by (simp add: quote_field_def)
    then have "parse_line ?p (quote_field f @ [LF]) =
        (case parse_chars ?p ?q of Inl e \<Rightarrow> Inl e | Inr p' \<Rightarrow> parse_line p' [LF])"
      by (simp only: parse_line_append)
    also have "\<dots> = parse_line \<lparr>pstate = QUOTE_IN_QUOTED_FIELD, pfields = fl, pfield = f\<rparr> [LF]"
      by (simp only: quoted_field_parsed [OF s len] sum.case)
    also have "\<dots> = Inr \<lparr>pstate = START_RECORD, pfields = fl @ [f], pfield = []\<rparr>"
      by (simp add: parse_save_field_def after_eol_def)
    finally show ?thesis .
  next
    case False
    show ?thesis
    proof (cases f)
      case Nil
      then show ?thesis by (simp add: quote_field_def parse_save_field_def after_eol_def)
    next
      case (Cons c g)
      have q: "quote_field f = c # g" using False Cons by (simp add: quote_field_def)
      have "parse_line ?p (quote_field f @ [LF]) =
          (case parse_chars ?p (c # g) of Inl e \<Rightarrow> Inl e | Inr p' \<Rightarrow> parse_line p' [LF])"
        by (simp only: q parse_line_append)
      also have "\<dots> = parse_line \<lparr>pstate = IN_FIELD, pfields = fl, pfield = c # g\<rparr> [LF]"
        using plain_field_parsed [OF s, of c g fl] len False Cons by simp
      also have "\<dots> = Inr \<lparr>pstate = START_RECORD, pfields = fl @ [f], pfield = []\<rparr>"
        using Cons by (simp add: parse_save_field_def after_eol_def)
      finally show ?thesis .
    qed
  qed
qed

lemma row_rest_parsed:
  "\<forall>g\<in>set (f # fs). length g \<le> field_limit \<Longrightarrow>
   parse_line \<lparr>pstate = START_FIELD, pfields = fl, pfield = []\<rparr> (join_fields (f # fs) @ [LF]) =
     Inr \<lparr>pstate = START_RECORD, pfields = fl @ f # fs, pfield = []\<rparr>"
proof (induction fs arbitrary: f fl)
  case Nil
  then show ?case using field_then_newline [of f fl] by simp
next
  case (Cons g t)
  have s: "START_FIELD = START_RECORD \<or> START_FIELD = START_FIELD" by simp
  have len: "length f \<le> field_limit" using Cons.prems by simp
  have "parse_line \<lparr>pstate = START_FIELD, pfields = fl, pfield = []\<rparr> (join_fields (f # g # t) @ [LF]) =
      parse_line \<lparr>pstate = START_FIELD, pfields = fl, pfield = []\<rparr>
        ((quote_field f @ [CHR '','']) @ (join_fields (g # t) @ [LF]))"
    by simp
  also have "\<dots> = (case parse_chars \<lparr>pstate = START_FIELD, pfields = fl, pfield = []\<rparr>
                          (quote_field f @ [CHR '','']) of
                    Inl e \<Rightarrow> Inl e | Inr p' \<Rightarrow> parse_line p' (join_fields (g # t) @ [LF]))"
    by (rule parse_line_append)
  also have "\<dots> = parse_line \<lparr>pstate = START_FIELD, pfields = fl @ [f], pfield = []\<rparr>
                      (join_fields (g # t) @ [LF])"
    by (simp only: field_then_comma [OF s len] sum.case)
  also have "\<dots> = Inr \<lparr>pstate = START_RECORD, pfields = (fl @ [f]) @ g # t, pfield = []\<rparr>"
    by (rule Cons.IH) (use Cons.prems in simp)
  finally show ?case by simp
qed

lemma row_parsed:
  assumes "\<forall>g\<in>set (f # g # t). length g \<le> field_limit"
  shows "parse_line parse_reset (join_fields (f # g # t) @ [LF]) =
           Inr \<lparr>pstate = START_RECORD, pfields = f # g # t, pfield = []\<rparr>"
proof -
  have s: "START_RECORD = START_RECORD \<or> START_RECORD = START_FIELD" by simp
  have len: "length f \<le> field_limit" using assms by simp
  have "parse_line parse_reset (join_fields (f # g # t) @ [LF]) =
      parse_line \<lparr>pstate = START_RECORD, pfields = [], pfield = []\<rparr>
        ((quote_field f @ [CHR '','']) @ (join_fields (g # t) @ [LF]))"
    by (simp add: parse_reset_def)
  also have "\<dots> = (case parse_chars \<lparr>pstate = START_RECORD, pfields = [], pfield = []\<rparr>
                          (quote_field f @ [CHR '','']) of
                    Inl e \<Rightarrow> Inl e | Inr p' \<Rightarrow> parse_line p' (join_fields (g # t) @ [LF]))"
    by (rule parse_line_append)
  also have "\<dots> = parse_line \<lparr>pstate = START_FIELD, pfields = [] @ [f], pfield = []\<rparr>
                      (join_fields (g # t) @ [LF])"
    by (simp only: field_then_comma [OF s len] sum.case)
  also have "\<dots> = Inr \<lparr>pstate = START_RECORD, pfields = ([] @ [f]) @ g # t, pfield = []\<rparr>"
    by (rule row_rest_parsed) (use assms in simp)
  finally show ?thesis by simp
qed

lemma record_line_parsed:
  assumes "\<forall>g\<in>set (to_list r). length g \<le> field_limit"
  shows "parse_line parse_reset (join_fields (to_list r) @ [LF]) =
           Inr \<lparr>pstate = START_RECORD, pfields = to_list r, pfield = []\<rparr>"
  using row_parsed [of "callsign r" "locator r" "[exchange r, comment r]"] assms
  by (simp add: to_list_def)

lemma record_lines_rows:
  "\<forall>r\<in>set rs. \<forall>g\<in>set (to_list r). length g \<le> field_limit \<Longrightarrow>
   csv_rows parse_reset (map (\<lambda>r. join_fields (to_list r) @ [LF]) rs) = (map to_list rs, None)"
proof (induction rs)
  case Nil
  then show ?case by (simp add: parse_reset_def)
next
  case (Cons r rs)
  have "parse_line parse_reset (join_fields (to_list r) @ [LF]) =
      Inr \<lparr>pstate = START_RECORD, pfields = to_list r, pfield = []\<rparr>"
    by (rule record_line_parsed) (use Cons.prems in simp)
  moreover have "csv_rows parse_reset (map (\<lambda>r. join_fields (to_list r) @ [LF]) rs) = (map to_list rs, None)"
    by (rule Cons.IH) (use Cons.prems in simp)
  ultimately show ?case by simp
qed

lemma set_escaped: "set (escaped f) = set f"
  by (induction f) (auto simp: escaped_def)

lemma set_quote_field: "set (quote_field f) \<subseteq> insert (CHR 0x22) (set f)"
  by (auto simp: quote_field_def set_escaped)

lemma set_join_fields:
  "set (join_fields fs) \<subseteq> {CHR 0x22, CHR '',''} \<union> (\<Union>f\<in>set fs. set f)"
proof (induction fs rule: join_fields.induct)
  case 1
  then show ?case by simp
next
  case (2 f)
  then show ?case using set_quote_field [of f] by auto
next
  case (3 f g fs)
  then show ?case using set_quote_field [of f] by auto
qed

lemma join_fields_no_newline:
  assumes "\<forall>f\<in>set fs. CR \<notin> set f \<and> LF \<notin> set f"
  shows "CR \<notin> set (join_fields fs) \<and> LF \<notin> set (join_fields fs)"
  using set_join_fields [of fs] assms by auto

lemma universal_newlines_line:
  "CR \<notin> set a \<Longrightarrow> universal_newlines (a @ CR # LF # rest) = a @ LF # universal_newlines rest"
  by (induction a) auto

lemma readlines_from_line:
  "LF \<notin> set a \<Longrightarrow> readlines_from acc (a @ LF # rest) = (acc @ a @ [LF]) # readlines_from [] rest"
  by (induction a arbitrary: acc) auto

lemma written_lines:
  "\<forall>r\<in>set rs. \<forall>f\<in>set (to_list r). CR \<notin> set f \<and> LF \<notin> set f \<Longrightarrow>
   readlines (universal_newlines (writerows (map to_list rs))) =
     map (\<lambda>r. join_fields (to_list r) @ [LF]) rs"
proof (induction rs)
  case Nil
  then show ?case by (simp add: writerows_def readlines_def)
next
  case (Cons r rs)
  let ?a = "join_fields (to_list r)"
  have nn: "CR \<notin> set ?a \<and> LF \<notin> set ?a"
    by (rule join_fields_no_newline) (use Cons.prems in simp)
  have row: "writerow (to_list r) = ?a @ [CR, LF]"
    by (simp add: writerow_def to_list_def)
  have "writerows (map to_list (r # rs)) = ?a @ CR # LF # writerows (map to_list rs)"
    by (simp add: writerows_def row)
  then have "universal_newlines (writerows (map to_list (r # rs))) =
      ?a @ LF # universal_newlines (writerows (map to_list rs))"
    using nn by (simp add: universal_newlines_line)
  then have "readlines (universal_newlines (writerows (map to_list (r # rs)))) =
      (?a @ [LF]) # readlines (universal_newlines (writerows (map to_list rs)))"
    using nn by (simp add: readlines_def readlines_from_line)
  then show ?case using Cons.IH Cons.prems by simp
qed

lemma from_list_to_list: "from_list (to_list r) = Inr r"
  by (simp add: to_list_def)

lemma keep_all_loop_stores_rows:
  "merge_mode m = KEEP_ALL \<Longrightarrow> \<not> remove_callsign_only m \<Longrightarrow> t \<noteq> 0 \<Longrightarrow>
   \<forall>r\<in>set rs. callsign r \<noteq> [] \<and> (\<forall>f\<in>set (to_list r). strip f = f) \<Longrightarrow>
   \<forall>r\<in>set rs. \<not> list_ex (\<lambda>y. rec_eq y r) (records m) \<Longrightarrow>
   no_equal_pair rs \<Longrightarrow>
   \<exists>m' ps. csl_rows_loop rnd m t k None (map to_list rs) = (None, m', ps) \<and>
            records m' = records m @ rs"
proof (induction rs arbitrary: m k)
  case Nil
  then show ?case by simp
next
  case (Cons r rs)
  let ?m1 = "mark_changed (m\<lparr>records := records m @ [r]\<rparr>)"
  have stripped: "map strip (to_list r) = to_list r"
    using Cons.prems(4) by (simp add: map_idI)
  have new: "\<not> contains (records m) r" using Cons.prems(5) by (simp add: contains_def)
  have add: "add_row m (to_list r) = Inr ?m1"
    using Cons.prems(1,2,4) new
    by (simp add: add_row_def stripped from_list_to_list add_or_merge_record_def)
  have m1: "merge_mode ?m1 = KEEP_ALL" "\<not> remove_callsign_only ?m1" "records ?m1 = records m @ [r]"
    using Cons.prems(1,2) by (simp_all add: mark_changed_def notify_observers_def)
  have later: "\<forall>x\<in>set rs. \<not> rec_eq r x"
    using Cons.prems(6) by (simp add: list_ex_iff)
  have fresh: "\<forall>x\<in>set rs. \<not> list_ex (\<lambda>y. rec_eq y x) (records ?m1)"
    using Cons.prems(5) later by (simp add: m1 list_ex_iff)
  have "\<exists>m' ps. csl_rows_loop rnd ?m1 t (k + 1) None (map to_list rs) = (None, m', ps) \<and>
            records m' = records ?m1 @ rs"
    by (rule Cons.IH) (use Cons.prems m1 fresh in simp_all)
  then obtain m' ps where loop: "csl_rows_loop rnd ?m1 t (k + 1) None (map to_list rs) = (None, m', ps)"
    and recs: "records m' = records ?m1 @ rs" by blast
  have ne: "to_list r \<noteq> []" by (simp add: to_list_def)
  have "csl_rows_loop rnd m t k None (map to_list (r # rs)) =
      (None, m', percent rnd (rnd (real (k + 1) / real t)) # ps)"
    using add loop ne Cons.prems(3) by (simp add: truediv_def)
  then show ?case using recs m1 by simp
qed

subsection \<open>C1: saving and loading back\<close>

text \<open>
  C1 says that loading a saved file into a new manager (Keep-All, filter off) gives back
  the saved records, and that both header lines of the writer produce no record.
  \<open>HEADER\<close> has two lines, and \<open>load_csl\<close> tests only the first row of the reader for the
  comment marker: the second line, the column legend, is read as a row of four fields and
  is stored as a record with the callsign \<open># <Callsign>\<close>.

  The theorem: for every list of records as the parsers produce them (a non-empty callsign,
  every field trimmed, free of line breaks and within the reader's field limit), no two of
  them value-equal and none value-equal to the legend record, loading the saved text into
  a new manager succeeds and stores the legend record followed by exactly the saved
  records, in their order: one record more than was saved.
\<close>

theorem reload_prepends_legend_record:
  assumes flds: "\<forall>r\<in>set rs. callsign r \<noteq> [] \<and>
            (\<forall>f\<in>set (to_list r). strip f = f \<and> CR \<notin> set f \<and> LF \<notin> set f \<and>
                                  length f \<le> field_limit)"
    and distinct: "no_equal_pair rs"
    and other: "\<not> list_ex (rec_eq \<lparr>callsign = ''# <Callsign>'', locator = ''<Locator>'',
                                    exchange = ''<Exchange>'', comment = ''<Comment>''\<rparr>) rs"
  shows "\<exists>m ps. load_csl rnd new_manager (csl_text rs) = (None, m, ps) \<and>
           records m = \<lparr>callsign = ''# <Callsign>'', locator = ''<Locator>'',
                         exchange = ''<Exchange>'', comment = ''<Comment>''\<rparr> # rs"
proof -
  let ?legend = "\<lparr>callsign = ''# <Callsign>'', locator = ''<Locator>'',
                   exchange = ''<Exchange>'', comment = ''<Comment>''\<rparr>"
  let ?rest = "writerows (map to_list rs)"
  let ?ls = "readlines (universal_newlines ?rest)"
  let ?t = "Suc (Suc (length ?ls))"
  have ls: "?ls = map (\<lambda>r. join_fields (to_list r) @ [LF]) rs"
    by (rule written_lines) (use flds in simp)
  have "csv_rows parse_reset (map (\<lambda>r. join_fields (to_list r) @ [LF]) rs) = (map to_list rs, None)"
    by (rule record_lines_rows) (use flds in simp)
  then have rows: "csv_reader_rows ?ls = (map to_list rs, None)"
    by (simp add: csv_reader_rows_def ls)
  let ?m1 = "mark_changed (new_manager\<lparr>records := [?legend]\<rparr>)"
  have add: "add_row new_manager [''# <Callsign>'', '' <Locator>'', '' <Exchange>'', '' <Comment>''] = Inr ?m1"
    by (simp add: add_row_def add_or_merge_record_def new_manager_def contains_def str_eval)
  have q: "truediv rnd 1 ?t = Inr (rnd (1 / real ?t))"
    by (simp add: truediv_def)
  have m1: "merge_mode ?m1 = KEEP_ALL" "\<not> remove_callsign_only ?m1" "records ?m1 = [?legend]"
    by (simp_all add: mark_changed_def notify_observers_def new_manager_def)
  have fresh: "\<forall>r\<in>set rs. \<not> list_ex (\<lambda>y. rec_eq y r) (records ?m1)"
    using other by (simp add: m1 list_ex_iff)
  have "\<exists>m' ps. csl_rows_loop rnd ?m1 ?t 1 None (map to_list rs) = (None, m', ps) \<and>
            records m' = records ?m1 @ rs"
    by (rule keep_all_loop_stores_rows) (use m1 flds fresh distinct in simp_all)
  then obtain m ps where loop: "csl_rows_loop rnd ?m1 ?t 1 None (map to_list rs) = (None, m, ps)"
    and recs: "records m = ?legend # rs" using m1 by auto
  have "load_csl rnd new_manager (csl_text rs) = (None, m, percent rnd (rnd (1 / real ?t)) # ps)"
    unfolding load_csl_def csl_text_def header_lines
    using rows add q loop
    by (simp add: header_rows [simplified] startswith_def)
  with recs show ?thesis by blast
qed

text \<open>
  The theorem at a store of two records, one with a field that the writer quotes, saved
  to a file and loaded from it.
\<close>

theorem reload_prepends_legend_record_witness:
  "(case save_csl
          (new_manager\<lparr>records :=
             [\<lparr>callsign = ''G4CTP'', locator = ''IO91'', exchange = ''a,b'', comment = ''hi''\<rparr>,
              \<lparr>callsign = ''M0ABC'', locator = ''JO01'', exchange = ''007'', comment = []\<rparr>]\<rparr>)
          \<lparr>files = Map.empty, write_error = (\<lambda>p. None)\<rparr> ''log.csl'' of
      (e, m1, fs1) \<Rightarrow>
        e = None \<and>
        (case files fs1 ''log.csl'' of
           None \<Rightarrow> False
         | Some saved \<Rightarrow>
             (\<exists>m2 ps. load_csl exact new_manager saved = (None, m2, ps) \<and>
                records m2 =
                  [\<lparr>callsign = ''# <Callsign>'', locator = ''<Locator>'',
                     exchange = ''<Exchange>'', comment = ''<Comment>''\<rparr>,
                   \<lparr>callsign = ''G4CTP'', locator = ''IO91'', exchange = ''a,b'', comment = ''hi''\<rparr>,
                   \<lparr>callsign = ''M0ABC'', locator = ''JO01'', exchange = ''007'', comment = []\<rparr>])))"
proof -
  let ?rs = "[\<lparr>callsign = ''G4CTP'', locator = ''IO91'', exchange = ''a,b'', comment = ''hi''\<rparr>,
              \<lparr>callsign = ''M0ABC'', locator = ''JO01'', exchange = ''007'', comment = []\<rparr>]"
  have 1: "\<forall>r\<in>set ?rs. callsign r \<noteq> [] \<and>
            (\<forall>f\<in>set (to_list r). strip f = f \<and> CR \<notin> set f \<and> LF \<notin> set f \<and>
                                  length f \<le> field_limit)"
    by (simp add: to_list_def field_limit_def str_eval)
  have 2: "no_equal_pair ?rs" by (simp add: rec_eq_def str_eval)
  have 3: "\<not> list_ex (rec_eq \<lparr>callsign = ''# <Callsign>'', locator = ''<Locator>'',
                                    exchange = ''<Exchange>'', comment = ''<Comment>''\<rparr>) ?rs"
    by (simp add: rec_eq_def str_eval)
  from reload_prepends_legend_record [OF 1 2 3] show ?thesis
    by (simp add: save_csl_def)
qed

text \<open>
  The same on a store of one record, by evaluating the writer, the reader and the loader
  step by step.
\<close>

theorem save_then_load_yields_legend_record:
  "(case save_csl
          (new_manager\<lparr>records :=
             [\<lparr>callsign = ''G4CTP'', locator = ''IO91'', exchange = ''a,b'', comment = ''hi''\<rparr>]\<rparr>)
          \<lparr>files = Map.empty, write_error = (\<lambda>p. None)\<rparr> ''log.csl'' of
      (e, m1, fs1) \<Rightarrow>
        e = None \<and>
        (case files fs1 ''log.csl'' of
           None \<Rightarrow> False
         | Some saved \<Rightarrow>
             (case load_csl exact new_manager saved of
                (e2, m2, ps) \<Rightarrow>
                  e2 = None \<and>
                  records m2 =
                    [\<lparr>callsign = ''# <Callsign>'', locator = ''<Locator>'',
                       exchange = ''<Exchange>'', comment = ''<Comment>''\<rparr>,
                     \<lparr>callsign = ''G4CTP'', locator = ''IO91'', exchange = ''a,b'',
                       comment = ''hi''\<rparr>])))"
proof -
  let ?r = "\<lparr>callsign = ''G4CTP'', locator = ''IO91'', exchange = ''a,b'', comment = ''hi''\<rparr>"
  let ?legend = "\<lparr>callsign = ''# <Callsign>'', locator = ''<Locator>'',
                       exchange = ''<Exchange>'', comment = ''<Comment>''\<rparr>"
  have saved: "csl_text [?r] =
      ''# Minos CSL Utility by G4CTP v0.7'' @ [LF] @
      ''# <Callsign>, <Locator>, <Exchange>, <Comment>'' @ [LF] @
      ''G4CTP,IO91,'' @ [CHR 0x22] @ ''a,b'' @ [CHR 0x22] @ '',hi'' @ [CR, LF]"
    by (simp add: csl_text_def HEADER_def VERSION_def to_list_def csv_eval)
  have lines: "readlines (universal_newlines (csl_text [?r])) =
      [''# Minos CSL Utility by G4CTP v0.7'' @ [LF],
       ''# <Callsign>, <Locator>, <Exchange>, <Comment>'' @ [LF],
       ''G4CTP,IO91,'' @ [CHR 0x22] @ ''a,b'' @ [CHR 0x22] @ '',hi'' @ [LF]]"
    unfolding saved by (simp add: readlines_def)
  have rows: "csv_reader_rows (readlines (universal_newlines (csl_text [?r]))) =
      ([[''# Minos CSL Utility by G4CTP v0.7''],
        [''# <Callsign>'', '' <Locator>'', '' <Exchange>'', '' <Comment>''],
        [''G4CTP'', ''IO91'', ''a,b'', ''hi'']], None)"
    unfolding lines by (simp add: csv_eval)
  have load: "load_csl exact new_manager (csl_text [?r]) =
      (None, new_manager\<lparr>records := [?legend, ?r], has_unsaved_changes := True\<rparr>,
       [100 / 3, 200 / 3])"
    by (simp add: load_csl_def lines rows [unfolded lines, simplified] startswith_def add_row_def add_or_merge_record_def new_manager_def
        contains_def rec_eq_def mark_changed_def notify_observers_def truediv_def percent_def exact_def str_eval)
  show ?thesis
    by (simp add: save_csl_def load)
qed

subsection \<open>C7: the outcomes of saving\<close>

text \<open>
  C7. When \<open>save_csl\<close> fails (it raises its \<open>IOError\<close>), the manager is exactly as it was
  before the call: the record list with every field, the dirty flag and all the rest. When
  it succeeds, the record list is unchanged, the dirty flag is false, every registered
  observer has been notified once, and the file holds the text of the records.
\<close>

theorem save_outcomes:
  "(case save_csl m fs filename of
      (Some e, m', fs') \<Rightarrow> m' = m \<and> fs' = fs
    | (None, m', fs') \<Rightarrow>
        records m' = records m \<and> \<not> has_unsaved_changes m' \<and>
        notified m' = notified m @ observers m \<and>
        files fs' filename = Some (csl_text (records m)))"
  by (simp add: save_csl_def notify_observers_def split: option.splits)

text \<open>The theorem at a path that cannot be written and at one that can.\<close>

theorem save_outcomes_witness:
  "save_csl
     (new_manager\<lparr>records := [\<lparr>callsign = ''G4CTP'', locator = ''IO91'', exchange = ''001'', comment = []\<rparr>],
        has_unsaved_changes := True, observers := [1, 2]\<rparr>)
     \<lparr>files = Map.empty, write_error = (\<lambda>p. if p = ''/ro/log.csl'' then Some ''Permission denied'' else None)\<rparr>
     ''/ro/log.csl''
   = (Some (IOError ''Failed to save file: Permission denied''),
      new_manager\<lparr>records := [\<lparr>callsign = ''G4CTP'', locator = ''IO91'', exchange = ''001'', comment = []\<rparr>],
        has_unsaved_changes := True, observers := [1, 2]\<rparr>,
      \<lparr>files = Map.empty, write_error = (\<lambda>p. if p = ''/ro/log.csl'' then Some ''Permission denied'' else None)\<rparr>) \<and>
   (\<exists>m' fs'.
      save_csl
        (new_manager\<lparr>records := [\<lparr>callsign = ''G4CTP'', locator = ''IO91'', exchange = ''001'', comment = []\<rparr>],
           has_unsaved_changes := True, observers := [1, 2]\<rparr>)
        \<lparr>files = Map.empty, write_error = (\<lambda>p. if p = ''/ro/log.csl'' then Some ''Permission denied'' else None)\<rparr>
        ''log.csl'' = (None, m', fs') \<and>
      records m' = [\<lparr>callsign = ''G4CTP'', locator = ''IO91'', exchange = ''001'', comment = []\<rparr>] \<and>
      \<not> has_unsaved_changes m' \<and> notified m' = [1, 2])"
proof
  let ?m = "new_manager\<lparr>records := [\<lparr>callsign = ''G4CTP'', locator = ''IO91'', exchange = ''001'', comment = []\<rparr>],
        has_unsaved_changes := True, observers := [1, 2]\<rparr>"
  let ?fs = "\<lparr>files = Map.empty, write_error = (\<lambda>p. if p = ''/ro/log.csl'' then Some ''Permission denied'' else None)\<rparr>"
  obtain e m' fs' where r: "save_csl ?m ?fs ''/ro/log.csl'' = (e, m', fs')"
    by (cases "save_csl ?m ?fs ''/ro/log.csl''") auto
  have e: "e = Some (IOError ''Failed to save file: Permission denied'')"
    using r by (simp add: save_csl_def)
  with save_outcomes [where m = ?m and fs = ?fs and filename = "''/ro/log.csl''"] r have "m' = ?m \<and> fs' = ?fs" by simp
  with r e show "save_csl ?m ?fs ''/ro/log.csl'' =
      (Some (IOError ''Failed to save file: Permission denied''), ?m, ?fs)" by simp
next
  let ?m = "new_manager\<lparr>records := [\<lparr>callsign = ''G4CTP'', locator = ''IO91'', exchange = ''001'', comment = []\<rparr>],
        has_unsaved_changes := True, observers := [1, 2]\<rparr>"
  let ?fs = "\<lparr>files = Map.empty, write_error = (\<lambda>p. if p = ''/ro/log.csl'' then Some ''Permission denied'' else None)\<rparr>"
  obtain e m' fs' where r: "save_csl ?m ?fs ''log.csl'' = (e, m', fs')"
    by (cases "save_csl ?m ?fs ''log.csl''") auto
  have e: "e = None" using r by (simp add: save_csl_def)
  with save_outcomes [where m = ?m and fs = ?fs and filename = "''log.csl''"] r
  have "records m' = records ?m \<and> \<not> has_unsaved_changes m' \<and> notified m' = notified ?m @ observers ?m"
    by simp
  then have "records m' = [\<lparr>callsign = ''G4CTP'', locator = ''IO91'', exchange = ''001'', comment = []\<rparr>] \<and>
      \<not> has_unsaved_changes m' \<and> notified m' = [1, 2]"
    by (simp add: new_manager_def)
  with r e show "\<exists>m' fs'. save_csl ?m ?fs ''log.csl'' = (None, m', fs') \<and>
      records m' = [\<lparr>callsign = ''G4CTP'', locator = ''IO91'', exchange = ''001'', comment = []\<rparr>] \<and>
      \<not> has_unsaved_changes m' \<and> notified m' = [1, 2]" by blast
qed


section \<open>Properties of the loaders\<close>

subsection \<open>The progress values of each loader are in ascending order\<close>

lemma truediv_Inr: "truediv rnd a b = Inr q \<Longrightarrow> b \<noteq> 0 \<and> q = rnd (real a / real b)"
  by (auto simp: truediv_def split: if_splits)

lemma frac_mono:
  assumes "\<forall>x y. x \<le> y \<longrightarrow> rnd x \<le> rnd y" and "a \<le> b"
  shows "percent rnd (rnd (real a / real t)) \<le> percent rnd (rnd (real b / real t))"
proof -
  have "real a / real t \<le> real b / real t" using assms(2) by (simp add: divide_right_mono)
  then have "rnd (real a / real t) \<le> rnd (real b / real t)" using assms(1) by blast
  then have "rnd (real a / real t) * 100 \<le> rnd (real b / real t) * 100" by simp
  then show ?thesis unfolding percent_def using assms(1) by blast
qed

lemma csl_rows_loop_sorted:
  "\<forall>x y. x \<le> y \<longrightarrow> rnd x \<le> rnd y \<Longrightarrow> csl_rows_loop rnd m t k err rows = (e, m', ps) \<Longrightarrow>
   sorted ps \<and> (\<forall>p\<in>set ps. percent rnd (rnd (real (k + 1) / real t)) \<le> p)"
proof (induction rows arbitrary: m k e m' ps)
  case Nil
  then show ?case by simp
next
  case (Cons row rows)
  show ?case
  proof (cases "if row \<noteq> [] then add_row m row else Inr m")
    case (Inl err')
    then show ?thesis using Cons.prems by simp
  next
    case (Inr m1)
    note mono = Cons.prems(1)
    show ?thesis
    proof (cases "truediv rnd (k + 1) t")
      case (Inl err')
      then show ?thesis using Cons.prems Inr by simp
    next
      case q: (Inr q)
      obtain e2 m2 ps2 where r: "csl_rows_loop rnd m1 t (k + 1) err rows = (e2, m2, ps2)"
        by (cases "csl_rows_loop rnd m1 t (k + 1) err rows") auto
      from Cons.IH [OF mono r] have s: "sorted ps2"
        and lb: "\<forall>p\<in>set ps2. percent rnd (rnd (real (k + 1 + 1) / real t)) \<le> p" by simp_all
      have qv: "q = rnd (real (k + 1) / real t)" using truediv_Inr [OF q] by simp
      have up: "percent rnd q \<le> percent rnd (rnd (real (k + 1 + 1) / real t))"
        unfolding qv by (rule frac_mono [OF mono]) simp
      have lb': "\<forall>p\<in>set ps2. percent rnd q \<le> p"
      proof
        fix p assume "p \<in> set ps2"
        with lb have "percent rnd (rnd (real (k + 1 + 1) / real t)) \<le> p" by blast
        with up show "percent rnd q \<le> p" by (rule order_trans)
      qed
      have "ps = percent rnd q # ps2" using Cons.prems Inr q r by simp
      then show ?thesis using s lb' qv by simp
    qed
  qed
qed

lemma load_csl_sorted:
  assumes mono: "\<forall>x y. x \<le> y \<longrightarrow> rnd x \<le> rnd y" and "load_csl rnd m txt = (e, m', ps)"
  shows "sorted ps"
proof -
  let ?lines = "readlines (universal_newlines txt)"
  let ?t = "length ?lines"
  obtain rows err where rows: "csv_reader_rows ?lines = (rows, err)"
    by (cases "csv_reader_rows ?lines") auto
  show ?thesis
  proof (cases rows)
    case Nil
    then show ?thesis using assms rows by (simp add: load_csl_def)
  next
    case (Cons first_line rest)
    consider (skip) "load_csl rnd m txt = csl_rows_loop rnd m ?t 0 err rest"
      | (stop) "ps = []"
      | (data) m1 q e2 m2 ps2 where "truediv rnd 1 ?t = Inr q"
          "csl_rows_loop rnd m1 ?t 1 err rest = (e2, m2, ps2)" "ps = percent rnd q # ps2"
    proof (cases first_line)
      case Nil
      then show ?thesis using that(1) rows Cons by (simp add: load_csl_def)
    next
      case fl: (Cons f0 fs)
      show ?thesis
      proof (cases "startswith f0 ''#''")
        case True
        then show ?thesis using that(1) rows Cons fl by (simp add: load_csl_def)
      next
        case False
        show ?thesis
        proof (cases "add_row m first_line")
          case (Inl err')
          then show ?thesis using that(2) assms rows Cons fl False by (simp add: load_csl_def)
        next
          case (Inr m1)
          show ?thesis
          proof (cases "truediv rnd 1 ?t")
            case (Inl err')
            then show ?thesis using that(2) assms rows Cons fl False Inr
              by (simp add: load_csl_def)
          next
            case q: (Inr q)
            obtain e2 m2 ps2 where r: "csl_rows_loop rnd m1 ?t 1 err rest = (e2, m2, ps2)"
              by (cases "csl_rows_loop rnd m1 ?t 1 err rest") auto
            then show ?thesis using that(3) [OF q r] assms rows Cons fl False Inr q
              by (simp add: load_csl_def)
          qed
        qed
      qed
    qed
    then show ?thesis
    proof cases
      case skip
      then show ?thesis using assms csl_rows_loop_sorted [OF mono] by metis
    next
      case stop
      then show ?thesis by simp
    next
      case (data m1 q e2 m2 ps2)
      from csl_rows_loop_sorted [OF mono data(2)] have s: "sorted ps2"
        and lb: "\<forall>p\<in>set ps2. percent rnd (rnd (real (1 + 1) / real ?t)) \<le> p" by simp_all
      have qv: "q = rnd (real 1 / real ?t)" using truediv_Inr [OF data(1)] by simp
      have up: "percent rnd q \<le> percent rnd (rnd (real (1 + 1) / real ?t))"
        unfolding qv by (rule frac_mono [OF mono]) simp
      have "\<forall>p\<in>set ps2. percent rnd q \<le> p"
      proof
        fix p assume "p \<in> set ps2"
        with lb have "percent rnd (rnd (real (1 + 1) / real ?t)) \<le> p" by blast
        with up show "percent rnd q \<le> p" by (rule order_trans)
      qed
      then show ?thesis using s data(3) by simp
    qed
  qed
qed

lemma emit_eq: "emit p r = (e, m, ps) \<Longrightarrow> \<exists>ps'. r = (e, m, ps') \<and> ps = p # ps'"
  by (cases r) (auto simp: emit_def)

lemma edi_first_pass_sorted:
  "\<forall>x y. x \<le> y \<longrightarrow> rnd x \<le> rnd y \<Longrightarrow> edi_first_pass rnd c r t k ls = (e, c', ps) \<Longrightarrow>
   sorted ps \<and> (\<forall>p\<in>set ps. percent rnd (rnd (real (k + 1) / real (t * 2))) \<le> p \<and>
                              p \<le> percent rnd (rnd (real (k + length ls) / real (t * 2))))"
proof (induction ls arbitrary: c r k e c' ps)
  case Nil
  then show ?case by simp
next
  case (Cons l ls)
  note mono = Cons.prems(1)
  show ?case
  proof (cases "truediv rnd (k + 1) (t * 2)")
    case (Inl err)
    then show ?thesis using Cons.prems by (simp add: Let_def)
  next
    case q: (Inr q)
    let ?flds = "split (strip l) CHR '';''"
    let ?next = "(if startswith (strip l) ''[Remarks]'' then (c, True)
                  else if startswith (strip l) ''[QSORecords;'' then (c, False)
                  else if r \<and> strip l \<noteq> [] \<and> length ?flds \<ge> 4
                  then (c(strip (?flds ! 2) \<mapsto> strip (?flds ! 3)), r)
                  else (c, r))"
    let ?top = "percent rnd (rnd (real (k + length (l # ls)) / real (t * 2)))"
    obtain e2 c2 ps2 where rec: "edi_first_pass rnd (fst ?next) (snd ?next) t (k + 1) ls = (e2, c2, ps2)"
      by (cases "edi_first_pass rnd (fst ?next) (snd ?next) t (k + 1) ls") auto
    from Cons.IH [OF mono rec] have s: "sorted ps2"
      and b: "\<forall>p\<in>set ps2. percent rnd (rnd (real (k + 1 + 1) / real (t * 2))) \<le> p \<and>
                p \<le> percent rnd (rnd (real (k + 1 + length ls) / real (t * 2)))" by simp_all
    have qv: "q = rnd (real (k + 1) / real (t * 2))" using truediv_Inr [OF q] by simp
    have up: "percent rnd q \<le> percent rnd (rnd (real (k + 1 + 1) / real (t * 2)))"
      unfolding qv by (rule frac_mono [OF mono]) simp
    have top: "percent rnd q \<le> ?top"
      unfolding qv by (rule frac_mono [OF mono]) simp
    have ps: "ps = percent rnd q # ps2"
      using Cons.prems q rec by (simp add: Let_def)
    have low: "\<forall>p\<in>set ps2. percent rnd q \<le> p"
    proof
      fix p assume "p \<in> set ps2"
      with b have "percent rnd (rnd (real (k + 1 + 1) / real (t * 2))) \<le> p" by blast
      with up show "percent rnd q \<le> p" by (rule order_trans)
    qed
    have high: "\<forall>p\<in>set ps2. p \<le> ?top" using b by simp
    show ?thesis using s ps qv top low high by simp
  qed
qed

lemma percent_nonneg:
  assumes "\<forall>x y. x \<le> y \<longrightarrow> rnd x \<le> rnd y" and "rnd 0 = 0"
  shows "0 \<le> percent rnd (rnd (real a / real b))"
proof -
  have "(0::real) \<le> real a / real b" by simp
  then have "rnd 0 \<le> rnd (real a / real b)" using assms(1) by blast
  then have "0 \<le> rnd (real a / real b) * 100" using assms(2) by simp
  then have "rnd 0 \<le> rnd (rnd (real a / real b) * 100)" using assms(1) by blast
  then show ?thesis using assms(2) by (simp add: percent_def)
qed

lemma second_half_ge_50:
  assumes "\<forall>x y. x \<le> y \<longrightarrow> rnd x \<le> rnd y" and "rnd 0 = 0" and "rnd 50 = 50"
  shows "50 \<le> min (rnd (50 + percent rnd (rnd (real a / real b)))) 100"
proof -
  have "(50::real) \<le> 50 + percent rnd (rnd (real a / real b))"
    using percent_nonneg [OF assms(1,2)] by simp
  then have "rnd 50 \<le> rnd (50 + percent rnd (rnd (real a / real b)))" using assms(1) by blast
  then show ?thesis using assms(3) by simp
qed

lemma first_half_le_50:
  assumes "\<forall>x y. x \<le> y \<longrightarrow> rnd x \<le> rnd y" and "rnd (1 / 2) = 1 / 2" and "rnd 50 = 50"
    and "t \<noteq> 0"
  shows "percent rnd (rnd (real (0 + t) / real (t * 2))) \<le> 50"
proof -
  have "real (0 + t) / real (t * 2) = 1 / 2" using assms(4) by simp
  then have "percent rnd (rnd (real (0 + t) / real (t * 2))) = rnd (rnd (1 / 2) * 100)"
    by (simp only: percent_def)
  also have "\<dots> = rnd 50" by (simp only: assms(2)) simp
  finally show ?thesis using assms(3) by simp
qed

lemma edi_second_pass_sorted:
  "\<forall>x y. x \<le> y \<longrightarrow> rnd x \<le> rnd y \<Longrightarrow> edi_second_pass rnd m c s t k ls = (e, m', ps) \<Longrightarrow>
   sorted ps \<and>
   (\<forall>p\<in>set ps. min (rnd (50 + percent rnd (rnd (real (k + 1) / real (t * 2))))) 100 \<le> p)"
proof (induction ls arbitrary: m s k e m' ps)
  case Nil
  then show ?case by simp
next
  case (Cons l ls)
  note mono = Cons.prems(1)
  show ?case
  proof (cases "truediv rnd (k + 1) (t * 2)")
    case (Inl err)
    then show ?thesis using Cons.prems by (simp add: Let_def)
  next
    case q: (Inr q)
    have qv: "q = rnd (real (k + 1) / real (t * 2))" using truediv_Inr [OF q] by simp
    let ?p = "min (rnd (50 + percent rnd q)) 100"
    let ?p' = "min (rnd (50 + percent rnd (rnd (real (k + 1 + 1) / real (t * 2))))) 100"
    have up: "?p \<le> ?p'"
    proof -
      have "percent rnd q \<le> percent rnd (rnd (real (k + 1 + 1) / real (t * 2)))"
        unfolding qv by (rule frac_mono [OF mono]) simp
      then have "50 + percent rnd q \<le> 50 + percent rnd (rnd (real (k + 1 + 1) / real (t * 2)))"
        by simp
      then have "rnd (50 + percent rnd q) \<le>
          rnd (50 + percent rnd (rnd (real (k + 1 + 1) / real (t * 2))))"
        using mono by blast
      then show ?thesis by simp
    qed
    have step: "sorted ps \<and> (\<forall>p\<in>set ps. ?p \<le> p)"
      if rec: "edi_second_pass rnd m1 c s1 t (k + 1) ls = (e, m', ps2)" and ps: "ps = ?p # ps2"
      for m1 s1 ps2
    proof -
      from Cons.IH [OF mono rec] have s2: "sorted ps2" and b: "\<forall>p\<in>set ps2. ?p' \<le> p"
        by simp_all
      have "\<forall>p\<in>set ps2. ?p \<le> p"
      proof
        fix p assume "p \<in> set ps2"
        with b have "?p' \<le> p" by blast
        with up show "?p \<le> p" by (rule order_trans)
      qed
      then show ?thesis using s2 ps by simp
    qed
    consider (qso) ps2 where "edi_second_pass rnd m c True t (k + 1) ls = (e, m', ps2)" "ps = ?p # ps2"
      | (stop) "ps = [?p]"
      | (go) m1 ps2 where "edi_second_pass rnd m1 c s t (k + 1) ls = (e, m', ps2)" "ps = ?p # ps2"
    proof (cases "startswith (strip l) ''[QSORecords;''")
      case True
      then have "emit ?p (edi_second_pass rnd m c True t (k + 1) ls) = (e, m', ps)"
        using Cons.prems q by (simp add: Let_def)
      from emit_eq [OF this] show ?thesis using that(1) by blast
    next
      case nq: False
      show ?thesis
      proof (cases "startswith (strip l) ''[END;''")
        case True
        then show ?thesis using that(2) Cons.prems q nq by (simp add: Let_def)
      next
        case ne: False
        let ?flds = "split (strip l) CHR '';''"
        show ?thesis
        proof (cases "if s \<and> strip l \<noteq> [] \<and> length ?flds \<ge> 10
                       then add_or_merge_record m (edi_record c ?flds) else Inr m")
          case (Inl err)
          then show ?thesis using that(2) Cons.prems q nq ne by (simp add: Let_def)
        next
          case (Inr m1)
          then have "emit ?p (edi_second_pass rnd m1 c s t (k + 1) ls) = (e, m', ps)"
            using Cons.prems q nq ne by (simp add: Let_def)
          from emit_eq [OF this] show ?thesis using that(3) by blast
        qed
      qed
    qed
    then have "sorted ps \<and> (\<forall>p\<in>set ps. ?p \<le> p)"
    proof cases
      case (qso ps2)
      then show ?thesis using step by blast
    next
      case stop
      then show ?thesis by simp
    next
      case (go m1 ps2)
      then show ?thesis using step by blast
    qed
    then show ?thesis unfolding qv by simp
  qed
qed

lemma load_edi_sorted:
  assumes mono: "\<forall>x y. x \<le> y \<longrightarrow> rnd x \<le> rnd y"
    and r0: "rnd 0 = 0" and rh: "rnd (1 / 2) = 1 / 2" and r50: "rnd 50 = 50"
    and load: "load_edi rnd m txt = (e, m', ps)"
  shows "sorted ps"
proof -
  let ?lines = "readlines (universal_newlines txt)"
  let ?t = "length ?lines"
  obtain e1 c1 ps1 where p1: "edi_first_pass rnd Map.empty False ?t 0 ?lines = (e1, c1, ps1)"
    by (cases "edi_first_pass rnd Map.empty False ?t 0 ?lines") auto
  from edi_first_pass_sorted [OF mono p1] have s1: "sorted ps1"
    and b1: "\<forall>p\<in>set ps1. p \<le> percent rnd (rnd (real (0 + ?t) / real (?t * 2)))" by simp_all
  have le50: "\<forall>p\<in>set ps1. p \<le> 50"
  proof (cases "?t = 0")
    case True
    then have "ps1 = []" using p1 by simp
    then show ?thesis by simp
  next
    case False
    show ?thesis
    proof
      fix p assume "p \<in> set ps1"
      with b1 have "p \<le> percent rnd (rnd (real (0 + ?t) / real (?t * 2)))" by blast
      also have "\<dots> \<le> 50" by (rule first_half_le_50 [OF mono rh r50 False])
      finally show "p \<le> 50" .
    qed
  qed
  show ?thesis
  proof (cases e1)
    case (Some err)
    then show ?thesis using load p1 s1 by (simp add: load_edi_def)
  next
    case None
    obtain e2 m2 ps2 where p2: "edi_second_pass rnd m c1 False ?t 0 ?lines = (e2, m2, ps2)"
      by (cases "edi_second_pass rnd m c1 False ?t 0 ?lines") auto
    from edi_second_pass_sorted [OF mono p2] have s2: "sorted ps2"
      and b2: "\<forall>p\<in>set ps2.
                 min (rnd (50 + percent rnd (rnd (real (0 + 1) / real (?t * 2))))) 100 \<le> p"
      by simp_all
    have half: "50 \<le> min (rnd (50 + percent rnd (rnd (real (0 + 1) / real (?t * 2))))) 100"
      by (rule second_half_ge_50 [OF mono r0 r50])
    have ge50: "\<forall>p\<in>set ps2. 50 \<le> p"
    proof
      fix p assume "p \<in> set ps2"
      with b2 have "min (rnd (50 + percent rnd (rnd (real (0 + 1) / real (?t * 2))))) 100 \<le> p"
        by blast
      with half show "50 \<le> p" by (rule order_trans)
    qed
    have "ps = ps1 @ ps2" using load p1 p2 None by (simp add: load_edi_def)
    moreover have "sorted (ps1 @ ps2)"
      using s1 s2 le50 ge50 by (fastforce simp: sorted_append)
    ultimately show ?thesis by simp
  qed
qed

lemma min_percent_mono:
  assumes "\<forall>x y. x \<le> y \<longrightarrow> rnd x \<le> rnd y" and "a \<le> b"
  shows "min (percent rnd (rnd (real a / real t))) 100 \<le> min (percent rnd (rnd (real b / real t))) 100"
  using frac_mono [OF assms, of t] by simp

lemma adif_loop_sorted:
  "\<forall>x y. x \<le> y \<longrightarrow> rnd x \<le> rnd y \<Longrightarrow> adif_loop rnd m t k qsos = (e, m', ps) \<Longrightarrow>
   sorted ps \<and> (\<forall>p\<in>set ps. min (percent rnd (rnd (real k / real t))) 100 \<le> p)"
proof (induction rnd m t k qsos arbitrary: e m' ps rule: adif_loop.induct)
  case (1 rnd m t k qsos)
  note mono = "1.prems"(1)
  show ?case
  proof (cases "adif_next qsos")
    case None
    then show ?thesis using "1.prems"(2) by (subst (asm) adif_loop.simps) simp
  next
    case (Some a)
    then obtain i qso rest where nx: "adif_next qsos = Some (i, qso, rest)"
      by (cases a) auto
    show ?thesis
    proof (cases "truediv rnd (k + (i + 5)) t")
      case (Inl err)
      then show ?thesis using "1.prems"(2) nx by (subst (asm) adif_loop.simps) simp
    next
      case q: (Inr q)
      have qv: "q = rnd (real (k + (i + 5)) / real t)" using truediv_Inr [OF q] by simp
      let ?p = "min (percent rnd q) 100"
      have low: "min (percent rnd (rnd (real k / real t))) 100 \<le> ?p"
        unfolding qv by (rule min_percent_mono [OF mono]) simp
      let ?r = "adif_record qso"
      show ?thesis
      proof (cases "if callsign ?r \<noteq> [] then add_or_merge_record m ?r else Inr m")
        case (Inl err)
        then have "ps = [?p]"
          using "1.prems"(2) nx q by (subst (asm) adif_loop.simps) (simp add: Let_def)
        then show ?thesis using low by simp
      next
        case (Inr m1)
        then have "emit ?p (adif_loop rnd m1 t (k + (i + 5)) rest) = (e, m', ps)"
          using "1.prems"(2) nx q by (subst (asm) adif_loop.simps) (simp add: Let_def)
        from emit_eq [OF this] obtain ps2 where
          rec: "adif_loop rnd m1 t (k + (i + 5)) rest = (e, m', ps2)" and ps: "ps = ?p # ps2"
          by blast
        have "sorted ps2 \<and>
            (\<forall>p\<in>set ps2. min (percent rnd (rnd (real (k + (i + 5)) / real t))) 100 \<le> p)"
          using "1.IH" [OF nx refl refl q refl refl Inr mono rec] .
        then have s2: "sorted ps2" and b: "\<forall>p\<in>set ps2. ?p \<le> p" unfolding qv by simp_all
        have "\<forall>p\<in>set ps. min (percent rnd (rnd (real k / real t))) 100 \<le> p"
        proof
          fix p assume "p \<in> set ps"
          then have "?p \<le> p" using ps b by auto
          with low show "min (percent rnd (rnd (real k / real t))) 100 \<le> p" by (rule order_trans)
        qed
        then show ?thesis using s2 b ps by simp
      qed
    qed
  qed
qed

lemma load_adif_sorted:
  "\<forall>x y. x \<le> y \<longrightarrow> rnd x \<le> rnd y \<Longrightarrow> load_adif rnd m txt = (e, m', ps) \<Longrightarrow> sorted ps"
  using adif_loop_sorted by (auto simp: load_adif_def Let_def split: option.splits)

lemma minos_loop_sorted:
  "\<forall>x y. x \<le> y \<longrightarrow> rnd x \<le> rnd y \<Longrightarrow> minos_loop rnd m t k iqs = (e, m', ps) \<Longrightarrow>
   sorted ps \<and> (\<forall>p\<in>set ps. min (percent rnd (rnd (real (k + 1) / real t))) 100 \<le> p)"
proof (induction iqs arbitrary: m k e m' ps)
  case Nil
  then show ?case by simp
next
  case (Cons iq iqs)
  note mono = Cons.prems(1)
  show ?case
  proof (cases "truediv rnd (k + 1) t")
    case (Inl err)
    then show ?thesis using Cons.prems by simp
  next
    case q: (Inr q)
    have qv: "q = rnd (real (k + 1) / real t)" using truediv_Inr [OF q] by simp
    let ?p = "min (percent rnd q) 100"
    show ?thesis
    proof (cases "minos_iq m iq")
      case (Inl err)
      then have "ps = [?p]" using Cons.prems q by (simp add: Let_def)
      then show ?thesis using qv by simp
    next
      case (Inr m1)
      then have "emit ?p (minos_loop rnd m1 t (k + 1) iqs) = (e, m', ps)"
        using Cons.prems q by (simp add: Let_def)
      from emit_eq [OF this] obtain ps2 where
        rec: "minos_loop rnd m1 t (k + 1) iqs = (e, m', ps2)" and ps: "ps = ?p # ps2" by blast
      from Cons.IH [OF mono rec] have s2: "sorted ps2"
        and b: "\<forall>p\<in>set ps2. min (percent rnd (rnd (real (k + 1 + 1) / real t))) 100 \<le> p"
        by simp_all
      have up: "?p \<le> min (percent rnd (rnd (real (k + 1 + 1) / real t))) 100"
        unfolding qv by (rule min_percent_mono [OF mono]) simp
      have "\<forall>p\<in>set ps2. ?p \<le> p"
      proof
        fix p assume "p \<in> set ps2"
        with b have "min (percent rnd (rnd (real (k + 1 + 1) / real t))) 100 \<le> p" by blast
        with up show "?p \<le> p" by (rule order_trans)
      qed
      then show ?thesis using s2 ps qv by simp
    qed
  qed
qed

lemma minos_body_sorted:
  "\<forall>x y. x \<le> y \<longrightarrow> rnd x \<le> rnd y \<Longrightarrow> minos_body rnd m parse content = (e, m', ps) \<Longrightarrow>
   sorted ps"
  using minos_loop_sorted
  by (auto simp: minos_body_def Let_def split: option.splits sum.splits if_splits)

lemma load_minos_sorted:
  assumes mono: "\<forall>x y. x \<le> y \<longrightarrow> rnd x \<le> rnd y"
    and "load_minos rnd m parse content = (e, m', ps)"
  shows "sorted ps"
proof -
  obtain e1 m1 ps1 where b: "minos_body rnd m parse (universal_newlines content) = (e1, m1, ps1)"
    by (cases "minos_body rnd m parse (universal_newlines content)") auto
  then have "ps = ps1" using assms(2)
    by (auto simp: load_minos_def split: option.splits error.splits)
  with minos_body_sorted [OF mono b] show ?thesis by simp
qed

lemma bounded_progress_mono: "a \<le> b \<Longrightarrow> bounded_progress a \<le> bounded_progress b"
  by (simp add: bounded_progress_def)

lemma sorted_map_bounded: "sorted ps \<Longrightarrow> sorted (map bounded_progress ps)"
  by (induction ps) (auto simp: bounded_progress_mono)

lemma bounded_progress_range: "0 \<le> bounded_progress p \<and> bounded_progress p \<le> 100"
  by (simp add: bounded_progress_def)

subsection \<open>The loaders on example files\<close>

text \<open>
  An EDI file with a remark for the station of its one contact, and the ADIF record
  \<open><CALL:5>G4CTP<COMMENT:4>Test<EOR>\<close>: each gives one record.
\<close>

lemma edi_example:
  "load_edi exact new_manager
     (''[Remarks]'' @ [LF] @ ''CALL;X;G4CTP;Nice contact'' @ [LF] @ ''[QSORecords;1]'' @ [LF] @
      ''220101;1200;G4CTP;1;59;001;59;002;XCH;IO91AA'' @ [LF] @ ''[END;0]'' @ [LF])
   = (None,
      new_manager\<lparr>records := [\<lparr>callsign = ''G4CTP'', locator = ''IO91AA'', exchange = ''XCH'',
                                 comment = ''Nice contact''\<rparr>],
                   has_unsaved_changes := True\<rparr>,
      [10, 20, 30, 40, 50, 60, 70, 80, 90, 100])"
  by (simp add: load_edi_def readlines_def Let_def truediv_def percent_def exact_def str_eval startswith_def split_def
      edi_record_def emit_def add_or_merge_record_def new_manager_def contains_def
      mark_changed_def notify_observers_def)

lemma adif_example:
  "load_adif exact new_manager ''<CALL:5>G4CTP<COMMENT:4>Test<EOR>'' =
     (None,
      new_manager\<lparr>records := [\<lparr>callsign = ''G4CTP'', locator = [], exchange = [], comment = ''Test''\<rparr>],
                   has_unsaved_changes := True\<rparr>,
      [100])"
  by (simp add: load_adif_def adif_loop.simps adif_next_def adif_record_def extract_adif_field_def
      find_from_def slice_def int_of_str_def unsigned_value_def digit_value_def is_int_space_def
      Let_def truediv_def percent_def exact_def str_eval startswith_def split_def emit_def add_or_merge_record_def
      new_manager_def contains_def mark_changed_def notify_observers_def)

text \<open>The example Minos documents: the stream is found, cleaned and parsed.\<close>

lemmas path_eval = suffix_def path_name_def split_def lower_def lower_char_def SUPPORTED_FORMATS_def

lemmas minos_examples = xml_declaration_def minos_stream_empty_def minos_stream_no_qso_def
  minos_stream_one_qso_def minos_text_empty_def minos_text_no_qso_def minos_text_one_qso_def

lemmas xml_eval = findall_children_def find_child_def find_path_def ns_def
  ns_client_def qso_params_def qualifies_def truthy_def minos_member_def

lemma no_cr_universal_newlines: "CR \<notin> set s \<Longrightarrow> universal_newlines s = s"
  by (induction s rule: universal_newlines.induct) (auto split: list.splits)

lemma ex_empty_text: "universal_newlines minos_text_empty = minos_text_empty"
  by (rule no_cr_universal_newlines) (simp add: minos_examples)

lemma ex_no_qso_text: "universal_newlines minos_text_no_qso = minos_text_no_qso"
  by (rule no_cr_universal_newlines) (simp add: minos_examples)

lemma ex_one_qso_text: "universal_newlines minos_text_one_qso = minos_text_one_qso"
  by (rule no_cr_universal_newlines) (simp add: minos_examples)

lemma ex_empty_find: "find_str ''<stream:stream'' minos_text_empty = Some 21"
  by (simp add: minos_examples startswith_def)

lemma ex_no_qso_find: "find_str ''<stream:stream'' minos_text_no_qso = Some 21"
  by (simp add: minos_examples startswith_def)

lemma ex_one_qso_find: "find_str ''<stream:stream'' minos_text_one_qso = Some 21"
  by (simp add: minos_examples startswith_def)

lemma ex_empty_clean:
  "clean_content minos_text_empty 21 = minos_stream_empty @ ''</stream:stream>''"
  by (simp add: clean_content_def minos_examples startswith_def)

lemma ex_no_qso_clean:
  "clean_content minos_text_no_qso 21 = minos_stream_no_qso @ ''</stream:stream>''"
  by (simp add: clean_content_def minos_examples startswith_def)

lemma ex_one_qso_clean:
  "clean_content minos_text_one_qso 21 = minos_stream_one_qso @ ''</stream:stream>''"
  by (simp add: clean_content_def minos_examples startswith_def)

lemma ex_empty_parse:
  "example_parser (minos_stream_empty @ ''</stream:stream>'') = Inr minos_root_empty"
  by (simp add: example_parser_def)

lemma ex_no_qso_parse:
  "example_parser (minos_stream_no_qso @ ''</stream:stream>'') = Inr minos_root_no_qso"
  by (simp add: example_parser_def minos_examples)

lemma ex_one_qso_parse:
  "example_parser (minos_stream_one_qso @ ''</stream:stream>'') = Inr minos_root_one_qso"
  by (simp add: example_parser_def minos_examples)

lemma ex_no_qso_iqs: "findall_iq minos_root_no_qso = [minos_iq_no_qso]"
  by (simp add: minos_root_no_qso_def minos_iq_no_qso_def findall_iq_def xml_eval)

lemma ex_no_qso_none_qualifies: "\<not> list_ex qualifies (findall_iq minos_root_no_qso)"
  unfolding ex_no_qso_iqs by (simp add: minos_iq_no_qso_def xml_eval)

lemma ex_empty_iqs: "findall_iq minos_root_empty = []"
  by (simp add: minos_root_empty_def findall_iq_def xml_eval)

lemma ex_no_qso_load:
  "load_minos exact new_manager example_parser minos_text_no_qso = (None, new_manager, [100])"
  by (simp add: load_minos_def minos_body_def ex_no_qso_text ex_no_qso_find ex_no_qso_clean
      ex_no_qso_parse ex_no_qso_iqs minos_iq_no_qso_def minos_iq_def xml_eval truediv_def percent_def exact_def
      emit_def)

lemma ex_one_qso_iqs: "findall_iq minos_root_one_qso = [minos_iq_one_qso]"
  by (simp add: minos_root_one_qso_def minos_iq_one_qso_def findall_iq_def xml_eval)

lemma minos_one_qso_example:
  "load_minos exact new_manager example_parser minos_text_one_qso =
     (None,
      new_manager\<lparr>records := [\<lparr>callsign = ''G4CTP'', locator = ''IO91'', exchange = [], comment = []\<rparr>],
                   has_unsaved_changes := True\<rparr>,
      [100])"
  by (simp add: load_minos_def minos_body_def ex_one_qso_text ex_one_qso_find ex_one_qso_clean
      ex_one_qso_parse ex_one_qso_iqs minos_iq_one_qso_def minos_iq_def xml_eval truediv_def percent_def exact_def emit_def
      minos_record_def get_stripped_def minos_comments_def add_or_merge_record_def
      new_manager_def contains_def mark_changed_def notify_observers_def str_eval)

subsection \<open>C6: a Minos file without contacts\<close>

lemma get_stripped_error:
  "get_stripped d k = Inl e \<Longrightarrow> e = AttributeError ''NoneType object has no attribute strip''"
  by (auto simp: get_stripped_def split: option.splits)

lemma minos_record_error:
  "minos_record d = Inl e \<Longrightarrow> e = AttributeError ''NoneType object has no attribute strip''"
  by (auto simp: minos_record_def split: sum.splits dest: get_stripped_error)

lemma minos_iq_error:
  assumes "minos_iq m iq = Inl e"
  shows "e = AttributeError ''NoneType object has no attribute strip''"
proof -
  have "add_or_merge_record m r \<noteq> Inl e" for r
    using add_or_merge_record_total [of m r] by auto
  with assms show ?thesis
    by (auto simp: minos_iq_def Let_def split: option.splits if_splits sum.splits
        dest: minos_record_error)
qed

lemma minos_loop_error:
  "minos_loop rnd m t k iqs = (Some e, m', ps) \<Longrightarrow>
   e = AttributeError ''NoneType object has no attribute strip'' \<or>
   e = ZeroDivisionError ''division by zero''"
proof (induction iqs arbitrary: m k ps)
  case Nil
  then show ?case by simp
next
  case (Cons iq iqs)
  show ?case
  proof (cases "truediv rnd (k + 1) t")
    case (Inl err)
    then show ?thesis using Cons.prems by (auto simp: truediv_def split: if_splits)
  next
    case q: (Inr q)
    show ?thesis
    proof (cases "minos_iq m iq")
      case (Inl err)
      then have "e = err" using Cons.prems q by (simp add: Let_def)
      with minos_iq_error [OF Inl] show ?thesis by simp
    next
      case (Inr m1)
      then have "emit (min (percent rnd q) 100) (minos_loop rnd m1 t (k + 1) iqs) = (Some e, m', ps)"
        using Cons.prems q by (simp add: Let_def)
      from emit_eq [OF this] Cons.IH show ?thesis by blast
    qed
  qed
qed

lemma not_qualifies_skipped: "\<not> qualifies iq \<Longrightarrow> minos_iq m iq = Inr m"
  by (auto simp: qualifies_def minos_iq_def Let_def split: option.splits)

lemma minos_loop_none_qualify:
  "t \<noteq> 0 \<Longrightarrow> \<not> list_ex qualifies iqs \<Longrightarrow> \<exists>ps. minos_loop rnd m t k iqs = (None, m, ps)"
proof (induction iqs arbitrary: k)
  case Nil
  then show ?case by simp
next
  case (Cons iq iqs)
  then have nq: "\<not> qualifies iq" and rest: "\<not> list_ex qualifies iqs" by simp_all
  from Cons.IH [OF Cons.prems(1) rest] obtain ps where
    "minos_loop rnd m t (k + 1) iqs = (None, m, ps)" by blast
  then show ?case
    using Cons.prems(1) not_qualifies_skipped [OF nq]
    by (simp add: truediv_def Let_def emit_def)
qed

text \<open>
  C6, as the code has it. \<open>load_minos\<close> raises its "No QSO records found" error when the
  document has no \<open>iq\<close> element at all, before the loop. After the loop a \<open>qso_count\<close> of
  zero is logged as a warning and the loader returns. The document here has one \<open>iq\<close>
  element, a call of another method: no element qualifies, and the load succeeds with the
  manager unchanged.
\<close>

theorem minos_without_qualifying_records_loads_counterexample:
  "find_str ''<stream:stream'' (universal_newlines minos_text_no_qso) = Some 21 \<and>
   example_parser (clean_content (universal_newlines minos_text_no_qso) 21) = Inr minos_root_no_qso \<and>
   length (findall_iq minos_root_no_qso) = 1 \<and>
   \<not> list_ex qualifies (findall_iq minos_root_no_qso) \<and>
   load_minos exact new_manager example_parser minos_text_no_qso = (None, new_manager, [100])"
  using ex_no_qso_none_qualifies ex_no_qso_load
  by (simp add: ex_no_qso_text ex_no_qso_find ex_no_qso_clean ex_no_qso_parse ex_no_qso_iqs)

text \<open>
  C6, amended. For a Minos file in which the stream element is found and whose cleaned
  text parses, \<open>load_minos\<close> fails with the empty-result error exactly when the document
  contains no \<open>iq\<close> element; and when it contains \<open>iq\<close> elements of which none qualifies
  (a \<open>MinosLogQSO\<close> call whose parameters hold a non-empty \<open>callRx\<close>), the load returns
  without an error and leaves the manager as it was.
\<close>

theorem minos_empty_result_iff_no_iq_element:
  assumes stream: "find_str ''<stream:stream'' (universal_newlines content) = Some stream_start"
    and parsed: "parse (clean_content (universal_newlines content) stream_start) = Inr root_elem"
  shows "(fst (load_minos rnd m parse content) =
            Some (IOError ''Failed to load Minos file: No QSO records found in file'')) =
         (findall_iq root_elem = []) \<and>
         (findall_iq root_elem \<noteq> [] \<and> \<not> list_ex qualifies (findall_iq root_elem) \<longrightarrow>
            (\<exists>ps. load_minos rnd m parse content = (None, m, ps)))"
proof (cases "findall_iq root_elem = []")
  case True
  then have "minos_body rnd m parse (universal_newlines content) =
      (Some (ValueError ''No QSO records found in file''), m, [])"
    using stream parsed by (simp add: minos_body_def)
  then have "load_minos rnd m parse content =
      (Some (IOError ''Failed to load Minos file: No QSO records found in file''), m, [])"
    by (simp add: load_minos_def)
  then show ?thesis using True by simp
next
  case False
  let ?iqs = "findall_iq root_elem"
  have body: "minos_body rnd m parse (universal_newlines content) = minos_loop rnd m (length ?iqs) 0 ?iqs"
    using stream parsed False by (simp add: minos_body_def)
  obtain e m' ps where loop: "minos_loop rnd m (length ?iqs) 0 ?iqs = (e, m', ps)"
    by (cases "minos_loop rnd m (length ?iqs) 0 ?iqs") auto
  have no: "fst (load_minos rnd m parse content) \<noteq>
      Some (IOError ''Failed to load Minos file: No QSO records found in file'')"
  proof (cases e)
    case None
    then show ?thesis using body loop by (simp add: load_minos_def)
  next
    case (Some err)
    with minos_loop_error loop have
      "err = AttributeError ''NoneType object has no attribute strip'' \<or>
       err = ZeroDivisionError ''division by zero''" by blast
    then show ?thesis using body loop Some by (auto simp: load_minos_def)
  qed
  have "\<exists>ps. load_minos rnd m parse content = (None, m, ps)"
    if "\<not> list_ex qualifies ?iqs"
  proof -
    have "length ?iqs \<noteq> 0" using False by simp
    from minos_loop_none_qualify [OF this that] obtain ps' where
      "minos_loop rnd m (length ?iqs) 0 ?iqs = (None, m, ps')" by blast
    then show ?thesis using body by (simp add: load_minos_def)
  qed
  then show ?thesis using no False by simp
qed

text \<open>The theorem at the document without \<open>iq\<close> elements and at the one with a single, non-qualifying element.\<close>

theorem minos_empty_result_iff_no_iq_element_witness:
  "fst (load_minos exact new_manager example_parser minos_text_empty) =
     Some (IOError ''Failed to load Minos file: No QSO records found in file'') \<and>
   findall_iq minos_root_empty = [] \<and>
   fst (load_minos exact new_manager example_parser minos_text_no_qso) \<noteq>
     Some (IOError ''Failed to load Minos file: No QSO records found in file'') \<and>
   findall_iq minos_root_no_qso \<noteq> [] \<and>
   (\<exists>ps. load_minos exact new_manager example_parser minos_text_no_qso = (None, new_manager, ps))"
proof -
  have s1: "find_str ''<stream:stream'' (universal_newlines minos_text_empty) = Some 21"
    by (simp add: ex_empty_text ex_empty_find)
  have p1: "example_parser (clean_content (universal_newlines minos_text_empty) 21) = Inr minos_root_empty"
    by (simp add: ex_empty_text ex_empty_clean ex_empty_parse)
  have s2: "find_str ''<stream:stream'' (universal_newlines minos_text_no_qso) = Some 21"
    by (simp add: ex_no_qso_text ex_no_qso_find)
  have p2: "example_parser (clean_content (universal_newlines minos_text_no_qso) 21) = Inr minos_root_no_qso"
    by (simp add: ex_no_qso_text ex_no_qso_clean ex_no_qso_parse)
  have ne: "findall_iq minos_root_no_qso \<noteq> []" by (simp add: ex_no_qso_iqs)
  from minos_empty_result_iff_no_iq_element
    [where rnd = exact and parse = example_parser and content = minos_text_empty and m = new_manager,
     OF s1 p1] ex_empty_iqs
  have a: "fst (load_minos exact new_manager example_parser minos_text_empty) =
     Some (IOError ''Failed to load Minos file: No QSO records found in file'')" by simp
  from minos_empty_result_iff_no_iq_element
    [where rnd = exact and parse = example_parser and content = minos_text_no_qso and m = new_manager,
     OF s2 p2] ne ex_no_qso_none_qualifies
  have b: "fst (load_minos exact new_manager example_parser minos_text_no_qso) \<noteq>
     Some (IOError ''Failed to load Minos file: No QSO records found in file'') \<and>
     (\<exists>ps. load_minos exact new_manager example_parser minos_text_no_qso = (None, new_manager, ps))"
    by simp
  from a b ne ex_empty_iqs show ?thesis by simp
qed

subsection \<open>C8: a load that fails on the structure of the file\<close>

text \<open>
  C8. When the path does not exist, when the extension is not a supported one, when a
  Minos file has no stream marker, or when its cleaned text does not parse, \<open>load_file\<close>
  raises, has reported no progress, and leaves the manager exactly as it was: in
  particular the dirty flag and the number of records are those before the call.
\<close>

theorem structural_failure_leaves_manager_unchanged:
  assumes "files fs filepath = None \<or>
           lower (suffix filepath) \<notin> set SUPPORTED_FORMATS \<or>
           (\<exists>content. files fs filepath = Some content \<and> lower (suffix filepath) = ''.minos'' \<and>
              (find_str ''<stream:stream'' (universal_newlines content) = None \<or>
               (\<exists>stream_start msg.
                  find_str ''<stream:stream'' (universal_newlines content) = Some stream_start \<and>
                  parse (clean_content (universal_newlines content) stream_start) = Inl msg)))"
  shows "\<exists>e m'. load_file rnd m fs parse filepath progress_callback = (Some e, m', []) \<and> m' = m \<and>
           has_unsaved_changes m' = has_unsaved_changes m \<and>
           length (records m') = length (records m)"
proof -
  consider (missing) "files fs filepath = None"
    | (unsupported) content where "files fs filepath = Some content"
        "lower (suffix filepath) \<notin> set SUPPORTED_FORMATS"
    | (minos) content where "files fs filepath = Some content"
        "lower (suffix filepath) = ''.minos''"
        "find_str ''<stream:stream'' (universal_newlines content) = None \<or>
         (\<exists>stream_start msg.
            find_str ''<stream:stream'' (universal_newlines content) = Some stream_start \<and>
            parse (clean_content (universal_newlines content) stream_start) = Inl msg)"
    using assms by (cases "files fs filepath") auto
  then show ?thesis
  proof cases
    case missing
    then show ?thesis by (simp add: load_file_def)
  next
    case unsupported
    then show ?thesis by (simp add: load_file_def Let_def)
  next
    case minos
    from minos(3) have "\<exists>e. minos_body rnd m parse (universal_newlines content) = (Some e, m, [])"
      by (auto simp: minos_body_def)
    then have "\<exists>e. load_minos rnd m parse content = (Some e, m, [])"
      by (auto simp: load_minos_def split: error.splits)
    then show ?thesis using minos(1,2)
      by (auto simp: load_file_def Let_def SUPPORTED_FORMATS_def)
  qed
qed

text \<open>The theorem at each of the four failures, on a manager that holds one record.\<close>

theorem structural_failure_leaves_manager_unchanged_witness:
  "load_file exact
     (new_manager\<lparr>records := [\<lparr>callsign = ''G4CTP'', locator = ''IO91'', exchange = ''001'', comment = []\<rparr>]\<rparr>)
     \<lparr>files = [''notes.txt'' \<mapsto> ''G4CTP'', ''bad.minos'' \<mapsto> ''G4CTP,IO91'',
                ''cut.MINOS'' \<mapsto> ''<stream:stream><iq''],
      write_error = (\<lambda>p. None)\<rparr>
     example_parser ''missing.csl'' True
   = (Some (FileNotFoundError ''File not found: missing.csl''),
      new_manager\<lparr>records := [\<lparr>callsign = ''G4CTP'', locator = ''IO91'', exchange = ''001'', comment = []\<rparr>]\<rparr>,
      []) \<and>
   load_file exact
     (new_manager\<lparr>records := [\<lparr>callsign = ''G4CTP'', locator = ''IO91'', exchange = ''001'', comment = []\<rparr>]\<rparr>)
     \<lparr>files = [''notes.txt'' \<mapsto> ''G4CTP'', ''bad.minos'' \<mapsto> ''G4CTP,IO91'',
                ''cut.MINOS'' \<mapsto> ''<stream:stream><iq''],
      write_error = (\<lambda>p. None)\<rparr>
     example_parser ''notes.txt'' True
   = (Some (ValueError ''Unsupported file format: .txt''),
      new_manager\<lparr>records := [\<lparr>callsign = ''G4CTP'', locator = ''IO91'', exchange = ''001'', comment = []\<rparr>]\<rparr>,
      []) \<and>
   load_file exact
     (new_manager\<lparr>records := [\<lparr>callsign = ''G4CTP'', locator = ''IO91'', exchange = ''001'', comment = []\<rparr>]\<rparr>)
     \<lparr>files = [''notes.txt'' \<mapsto> ''G4CTP'', ''bad.minos'' \<mapsto> ''G4CTP,IO91'',
                ''cut.MINOS'' \<mapsto> ''<stream:stream><iq''],
      write_error = (\<lambda>p. None)\<rparr>
     example_parser ''bad.minos'' True
   = (Some (IOError ''Failed to load Minos file: Invalid Minos file format: No stream element found''),
      new_manager\<lparr>records := [\<lparr>callsign = ''G4CTP'', locator = ''IO91'', exchange = ''001'', comment = []\<rparr>]\<rparr>,
      []) \<and>
   load_file exact
     (new_manager\<lparr>records := [\<lparr>callsign = ''G4CTP'', locator = ''IO91'', exchange = ''001'', comment = []\<rparr>]\<rparr>)
     \<lparr>files = [''notes.txt'' \<mapsto> ''G4CTP'', ''bad.minos'' \<mapsto> ''G4CTP,IO91'',
                ''cut.MINOS'' \<mapsto> ''<stream:stream><iq''],
      write_error = (\<lambda>p. None)\<rparr>
     example_parser ''cut.MINOS'' True
   = (Some (IOError ''Failed to load Minos file: Invalid XML in Minos file: syntax error: line 1, column 0''),
      new_manager\<lparr>records := [\<lparr>callsign = ''G4CTP'', locator = ''IO91'', exchange = ''001'', comment = []\<rparr>]\<rparr>,
      [])"
proof -
  let ?m = "new_manager\<lparr>records := [\<lparr>callsign = ''G4CTP'', locator = ''IO91'', exchange = ''001'', comment = []\<rparr>]\<rparr>"
  let ?fs = "\<lparr>files = [''notes.txt'' \<mapsto> ''G4CTP'', ''bad.minos'' \<mapsto> ''G4CTP,IO91'',
                ''cut.MINOS'' \<mapsto> ''<stream:stream><iq''],
      write_error = (\<lambda>p. None)\<rparr>"
  let ?hyp = "\<lambda>filepath. files ?fs filepath = None \<or>
           lower (suffix filepath) \<notin> set SUPPORTED_FORMATS \<or>
           (\<exists>content. files ?fs filepath = Some content \<and> lower (suffix filepath) = ''.minos'' \<and>
              (find_str ''<stream:stream'' (universal_newlines content) = None \<or>
               (\<exists>stream_start msg.
                  find_str ''<stream:stream'' (universal_newlines content) = Some stream_start \<and>
                  example_parser (clean_content (universal_newlines content) stream_start) = Inl msg)))"
  have h1: "?hyp ''missing.csl''" by simp
  have h2: "?hyp ''notes.txt''" by (simp add: path_eval)
  have h3: "?hyp ''bad.minos''" by (simp add: path_eval startswith_def)
  have "example_parser (clean_content (universal_newlines ''<stream:stream><iq'') 0) =
      Inl ''syntax error: line 1, column 0''"
    by (simp add: clean_content_def startswith_def example_parser_def minos_examples)
  then have h4: "?hyp ''cut.MINOS''" by (simp add: path_eval startswith_def)
  have e1: "fst (load_file exact ?m ?fs example_parser ''missing.csl'' True) =
      Some (FileNotFoundError ''File not found: missing.csl'')"
    by (simp add: load_file_def)
  have e2: "fst (load_file exact ?m ?fs example_parser ''notes.txt'' True) =
      Some (ValueError ''Unsupported file format: .txt'')"
    by (simp add: load_file_def path_eval)
  have e3: "fst (load_file exact ?m ?fs example_parser ''bad.minos'' True) =
      Some (IOError ''Failed to load Minos file: Invalid Minos file format: No stream element found'')"
    by (simp add: load_file_def path_eval load_minos_def minos_body_def startswith_def)
  have e4: "fst (load_file exact ?m ?fs example_parser ''cut.MINOS'' True) =
      Some (IOError ''Failed to load Minos file: Invalid XML in Minos file: syntax error: line 1, column 0'')"
    by (simp add: load_file_def path_eval load_minos_def minos_body_def startswith_def
        clean_content_def example_parser_def minos_examples)
  from structural_failure_leaves_manager_unchanged [where rnd = exact and m = ?m and progress_callback = True, OF h1] e1
  have r1: "load_file exact ?m ?fs example_parser ''missing.csl'' True =
      (Some (FileNotFoundError ''File not found: missing.csl''), ?m, [])" by auto
  from structural_failure_leaves_manager_unchanged [where rnd = exact and m = ?m and progress_callback = True, OF h2] e2
  have r2: "load_file exact ?m ?fs example_parser ''notes.txt'' True =
      (Some (ValueError ''Unsupported file format: .txt''), ?m, [])" by auto
  from structural_failure_leaves_manager_unchanged [where rnd = exact and m = ?m and progress_callback = True, OF h3] e3
  have r3: "load_file exact ?m ?fs example_parser ''bad.minos'' True =
      (Some (IOError ''Failed to load Minos file: Invalid Minos file format: No stream element found''), ?m, [])"
    by auto
  from structural_failure_leaves_manager_unchanged [where rnd = exact and m = ?m and progress_callback = True, OF h4] e4
  have r4: "load_file exact ?m ?fs example_parser ''cut.MINOS'' True =
      (Some (IOError ''Failed to load Minos file: Invalid XML in Minos file: syntax error: line 1, column 0''), ?m, [])"
    by auto
  from r1 r2 r3 r4 show ?thesis by blast
qed

subsection \<open>C9: the progress values a caller receives\<close>

text \<open>
  C9. For every call of \<open>load_file\<close>, whatever the format and whether or not the load
  ends with an exception, the values delivered to the caller's progress callback are in
  ascending order (each is at least the one before) and each lies between 0 and 100:
  \<open>bounded_progress\<close> clips every value before it passes it on. The float arithmetic
  may round as it likes, provided the rounding is monotone and leaves 0, 1/2 and 50 as
  they are, which the rounding of IEEE 754 arithmetic does.
\<close>

theorem progress_is_monotone_and_bounded:
  assumes mono: "\<forall>x y. x \<le> y \<longrightarrow> rnd x \<le> rnd y"
    and r0: "rnd 0 = 0" and rh: "rnd (1 / 2) = 1 / 2" and r50: "rnd 50 = 50"
  shows "case load_file rnd m fs parse filepath progress_callback of
           (e, m', delivered) \<Rightarrow>
             sorted delivered \<and> (\<forall>p\<in>set delivered. 0 \<le> p \<and> p \<le> 100)"
proof (cases "files fs filepath")
  case None
  then show ?thesis by (simp add: load_file_def)
next
  case (Some content)
  let ?ext = "lower (suffix filepath)"
  show ?thesis
  proof (cases "?ext \<in> set SUPPORTED_FORMATS")
    case False
    then show ?thesis using Some by (simp add: load_file_def Let_def)
  next
    case True
    let ?r = "if ?ext = ''.csl'' then load_csl rnd m content
              else if ?ext = ''.edi'' then load_edi rnd m content
              else if ?ext \<in> {''.adi'', ''.adif''} then load_adif rnd m content
              else load_minos rnd m parse content"
    obtain err m1 ps where r: "?r = (err, m1, ps)" by (cases ?r) auto
    have "sorted ps"
      using r load_csl_sorted [OF mono] load_edi_sorted [OF mono r0 rh r50]
        load_adif_sorted [OF mono] load_minos_sorted [OF mono]
      by (auto split: if_splits)
    then have s: "sorted (map bounded_progress ps)" by (rule sorted_map_bounded)
    have b: "\<forall>p\<in>set (map bounded_progress ps). 0 \<le> p \<and> p \<le> 100"
      using bounded_progress_range by auto
    let ?d = "if progress_callback then map bounded_progress ps else []"
    have d: "sorted ?d \<and> (\<forall>p\<in>set ?d. 0 \<le> p \<and> p \<le> 100)" using s b by auto
    have "load_file rnd m fs parse filepath progress_callback =
        (case err of
           Some e \<Rightarrow> (Some e, m1, ?d)
         | None \<Rightarrow> (None, notify_observers
                        (m1\<lparr>current_file := Some filepath, has_unsaved_changes := True\<rparr>), ?d))"
      using Some True r by (simp add: load_file_def Let_def)
    then show ?thesis using d by (cases err) simp_all
  qed
qed

text \<open>The theorem at the EDI example, in exact arithmetic: ten values, from 10 to 100.\<close>

theorem progress_is_monotone_and_bounded_witness:
  "(\<exists>m'. load_file exact new_manager
            \<lparr>files = [''log.edi'' \<mapsto>
                 ''[Remarks]'' @ [LF] @ ''CALL;X;G4CTP;Nice contact'' @ [LF] @
                 ''[QSORecords;1]'' @ [LF] @
                 ''220101;1200;G4CTP;1;59;001;59;002;XCH;IO91AA'' @ [LF] @ ''[END;0]'' @ [LF]],
              write_error = (\<lambda>p. None)\<rparr>
            example_parser ''log.edi'' True
          = (None, m', [10, 20, 30, 40, 50, 60, 70, 80, 90, 100])) \<and>
   sorted [10, 20, 30, 40, 50, 60, 70, 80, 90, 100 :: real] \<and>
   list_all (\<lambda>p. 0 \<le> p \<and> p \<le> 100) [10, 20, 30, 40, 50, 60, 70, 80, 90, 100 :: real]"
proof -
  let ?txt = "''[Remarks]'' @ [LF] @ ''CALL;X;G4CTP;Nice contact'' @ [LF] @
                 ''[QSORecords;1]'' @ [LF] @
                 ''220101;1200;G4CTP;1;59;001;59;002;XCH;IO91AA'' @ [LF] @ ''[END;0]'' @ [LF]"
  let ?fs = "\<lparr>files = [''log.edi'' \<mapsto> ?txt], write_error = (\<lambda>p. None)\<rparr>"
  let ?d = "[10, 20, 30, 40, 50, 60, 70, 80, 90, 100 :: real]"
  have ev: "\<exists>m'. load_file exact new_manager ?fs example_parser ''log.edi'' True = (None, m', ?d)"
    by (simp add: load_file_def path_eval edi_example [simplified] bounded_progress_def)
  then obtain m' where m': "load_file exact new_manager ?fs example_parser ''log.edi'' True = (None, m', ?d)"
    by blast
  have r: "\<forall>x y. x \<le> y \<longrightarrow> exact x \<le> exact y" "exact 0 = 0" "exact (1 / 2) = 1 / 2"
    "exact 50 = 50"
    by (simp_all add: exact_def)
  from progress_is_monotone_and_bounded
    [where rnd = exact and m = new_manager and fs = ?fs and parse = example_parser
       and filepath = "''log.edi''" and progress_callback = True, OF r] m'
  have "sorted ?d \<and> (\<forall>p\<in>set ?d. 0 \<le> p \<and> p \<le> 100)" by simp
  then have "sorted ?d \<and> list_all (\<lambda>p. 0 \<le> p \<and> p \<le> 100) ?d" by (simp add: list_all_iff)
  with ev show ?thesis by blast
qed


end
